theory Spec2Isabelle
  imports Main "HOL-Library.Word"
begin

section \<open>Text codec (package encoding)\<close>

text \<open>
  A Go string is a sequence of bytes; it is modelled as a \<open>string\<close> (a list of 8-bit
  characters). \<open>strings.ReplaceAll(s, old, new)\<close> scans \<open>s\<close> from the left and replaces
  every non-overlapping occurrence of \<open>old\<close> by \<open>new\<close>. Every call in the package passes
  a non-empty literal for \<open>old\<close>; for an empty \<open>old\<close> (where Go inserts \<open>new\<close> around every
  rune) the model leaves the text unchanged.
\<close>

function ReplaceAll :: "string \<Rightarrow> string \<Rightarrow> string \<Rightarrow> string" where
  "ReplaceAll [] old new = []"
| "ReplaceAll (c # cs) old new =
     (if old \<noteq> [] \<and> take (length old) (c # cs) = old
      then new @ ReplaceAll (drop (length old) (c # cs)) old new
      else c # ReplaceAll cs old new)"
  by pat_completeness auto
termination
  by (relation "measure (\<lambda>(s, old, new). length s)") auto

text \<open>The two placeholder bytes of \<open>Decode\<close>, the double quote, the backslash and the newline.\<close>

abbreviation NUL :: char where "NUL \<equiv> CHR 0x00"
abbreviation SOH :: char where "SOH \<equiv> CHR 0x01"
abbreviation DQUOTE :: char where "DQUOTE \<equiv> CHR 0x22"
abbreviation BSLASH :: char where "BSLASH \<equiv> CHR 0x5C"
abbreviation NEWLINE :: char where "NEWLINE \<equiv> CHR 0x0A"

definition Encode :: "string \<Rightarrow> string" where
  "Encode text0 =
    (let text = ReplaceAll text0 ''_'' ''__'';
         text = ReplaceAll text ''-'' ''--'';
         text = ReplaceAll text '' '' ''_'';
         text = ReplaceAll text ''?'' ''~q'';
         text = ReplaceAll text ''%'' ''~p'';
         text = ReplaceAll text ''#'' ''~h'';
         text = ReplaceAll text [DQUOTE] [CHR 0x27, CHR 0x27];
         text = ReplaceAll text ''/'' ''~s'';
         text = ReplaceAll text [BSLASH] ''~b'';
         text = ReplaceAll text [NEWLINE] ''~n'';
         text = ReplaceAll text ''&'' ''~a'';
         text = ReplaceAll text ''<'' ''~l'';
         text = ReplaceAll text ''>'' ''~g''
     in text)"

definition Decode :: "string \<Rightarrow> string" where
  "Decode text0 =
    (let text = ReplaceAll text0 ''~q'' ''?'';
         text = ReplaceAll text ''~p'' ''%'';
         text = ReplaceAll text ''~h'' ''#'';
         text = ReplaceAll text ''~a'' ''&'';
         text = ReplaceAll text ''~l'' ''<'';
         text = ReplaceAll text ''~g'' ''>'';
         text = ReplaceAll text ''~b'' [BSLASH];
         text = ReplaceAll text ''~s'' ''/'';
         text = ReplaceAll text ''~n'' [NEWLINE];
         text = ReplaceAll text [CHR 0x27, CHR 0x27] [DQUOTE];
         text = ReplaceAll text ''__'' [NUL];
         text = ReplaceAll text ''_'' '' '';
         text = ReplaceAll text [NUL] ''_'';
         text = ReplaceAll text ''--'' [SOH];
         text = ReplaceAll text [SOH] ''-''
     in text)"

text \<open>
  The per-byte image of \<open>Encode\<close>: every pass of \<open>Encode\<close> replaces a single byte, and no
  pass produces a byte that a later pass replaces, so \<open>Encode\<close> maps each byte on its own
  (lemma \<open>Encode_concat_map\<close> below derives this from the passes).
\<close>

definition enc_char :: "char \<Rightarrow> string" where
  "enc_char c =
    (if c = CHR ''_'' then ''__''
     else if c = CHR ''-'' then ''--''
     else if c = CHR '' '' then ''_''
     else if c = CHR ''?'' then ''~q''
     else if c = CHR ''%'' then ''~p''
     else if c = CHR ''#'' then ''~h''
     else if c = DQUOTE then [CHR 0x27, CHR 0x27]
     else if c = CHR ''/'' then ''~s''
     else if c = BSLASH then ''~b''
     else if c = NEWLINE then ''~n''
     else if c = CHR ''&'' then ''~a''
     else if c = CHR ''<'' then ''~l''
     else if c = CHR ''>'' then ''~g''
     else [c])"

text \<open>\<open>next_is x s\<close>: the text \<open>s\<close> starts with the byte \<open>x\<close>.\<close>

fun next_is :: "char \<Rightarrow> string \<Rightarrow> bool" where
  "next_is x [] = False"
| "next_is x (c # s) = (c = x)"

text \<open>\<open>contains s sub\<close>: \<open>sub\<close> occurs in \<open>s\<close> as a run of consecutive bytes.\<close>

fun contains :: "string \<Rightarrow> string \<Rightarrow> bool" where
  "contains [] sub = (sub = [])"
| "contains (c # cs) sub = (take (length sub) (c # cs) = sub \<or> contains cs sub)"

text \<open>
  The texts on which decoding undoes encoding: no placeholder byte, no space followed by a
  space or an underscore, no apostrophe followed by an apostrophe or a double quote, and no
  tilde followed by one of the letters of the tilde escapes.
\<close>

definition roundtrip_safe :: "string \<Rightarrow> bool" where
  "roundtrip_safe s \<longleftrightarrow>
     NUL \<notin> set s \<and> SOH \<notin> set s \<and>
     \<not> contains s ''  '' \<and> \<not> contains s '' _'' \<and>
     \<not> contains s [CHR 0x27, CHR 0x27] \<and> \<not> contains s [CHR 0x27, DQUOTE] \<and>
     (\<forall>x \<in> set ''qphalgbsn''. \<not> contains s [CHR ''~'', x])"

section \<open>Resilient transport (package api)\<close>

text \<open>
  A Go \<open>error\<close> is either an opaque error with its message or
  \<open>fmt.Errorf("<prefix>: %w", err)\<close>, which wraps \<open>err\<close>. \<open>Unwrap\<close> is \<open>errors.Unwrap\<close> and
  \<open>Error\<close> is the method \<open>Error()\<close>.
\<close>

datatype error = Err string | Wrap string error

fun Unwrap :: "error \<Rightarrow> error option" where
  "Unwrap (Err m) = None"
| "Unwrap (Wrap p e) = Some e"

fun Error :: "error \<Rightarrow> string" where
  "Error (Err m) = m"
| "Error (Wrap p e) = p @ '': '' @ Error e"

text \<open>
  Of \<open>http.Response\<close> the transport reads \<open>StatusCode\<close> (a Go \<open>int\<close>) and closes \<open>Body\<close>;
  \<open>Body\<close> is the identity of the body stream. A call of a \<open>RoundTripper\<close> returns the Go
  pair \<open>(*http.Response, error)\<close>, each component possibly \<open>nil\<close>, or panics.
\<close>

record response =
  StatusCode :: int
  Body :: nat

datatype outcome = Return "response option" "error option" | Panic

definition StatusTooManyRequests :: int where "StatusTooManyRequests = 429"
definition StatusInternalServerError :: int where "StatusInternalServerError = 500"
definition StatusGatewayTimeout :: int where "StatusGatewayTimeout = 504"

definition shouldRetry :: "int \<Rightarrow> bool" where
  "shouldRetry statusCode \<longleftrightarrow>
     statusCode = StatusTooManyRequests \<or>
     (statusCode \<ge> StatusInternalServerError \<and> statusCode \<le> StatusGatewayTimeout)"

text \<open>
  \<open>maxRetries\<close> is a Go \<open>int\<close> and \<open>baseDelay\<close> a \<open>time.Duration\<close> (\<open>int64\<close>): 64-bit words
  read as signed numbers, so that \<open>maxRetries + 1\<close> and the delay wrap around as in Go.
\<close>

record retryTransport =
  maxRetries :: "64 word"
  baseDelay :: "64 word"

text \<open>
  What the surroundings of one call of \<open>RoundTrip\<close> do, indexed by the attempt:
  \<^item> \<open>getBody\<close> is \<open>None\<close> when \<open>req.Body\<close> or \<open>req.GetBody\<close> is \<open>nil\<close>; otherwise it gives
    the error returned by the call of \<open>req.GetBody()\<close> in each attempt (\<open>None\<close>: no error,
    and then the body it returns is not \<open>nil\<close>);
  \<^item> \<open>base\<close> is what \<open>t.base.RoundTrip(req)\<close> does in each attempt;
  \<^item> \<open>ctxDone\<close> tells which case the \<open>select\<close> after each attempt takes: \<open>Some err\<close> when
    \<open>req.Context().Done()\<close> fires before the timer, with \<open>err = req.Context().Err()\<close>, and
    \<open>None\<close> when the timer \<open>time.After(delay)\<close> fires first.
\<close>

record call_env =
  getBody :: "(nat \<Rightarrow> error option) option"
  base :: "nat \<Rightarrow> outcome"
  ctxDone :: "nat \<Rightarrow> error option"

text \<open>
  The calls \<open>RoundTrip\<close> makes, in order, each with the attempt it belongs to:
  \<open>req.GetBody()\<close>, \<open>t.base.RoundTrip(req)\<close>, \<open>resp.Body.Close()\<close>, and the wait of the
  \<open>select\<close> with its delay.
\<close>

datatype event = GetBody nat | BaseRoundTrip nat | BodyClose nat | Backoff nat "64 word"

text \<open>One pass through the body of the \<open>for\<close> loop either returns from \<open>RoundTrip\<close> or
  falls through to the next iteration with \<open>resp\<close> set.\<close>

datatype iteration = Returned outcome | Continue response

definition clone_events :: "call_env \<Rightarrow> nat \<Rightarrow> event list" where
  "clone_events e attempt = (case getBody e of None \<Rightarrow> [] | Some g \<Rightarrow> [GetBody attempt])"

definition clone_error :: "call_env \<Rightarrow> nat \<Rightarrow> error option" where
  "clone_error e attempt = (case getBody e of None \<Rightarrow> None | Some g \<Rightarrow> g attempt)"

definition attempt_step ::
  "retryTransport \<Rightarrow> call_env \<Rightarrow> nat \<Rightarrow> iteration \<times> event list" where
  "attempt_step t e attempt =
    (case clone_error e attempt of
       Some bodyErr \<Rightarrow>
         (Returned (Return None (Some (Wrap ''cloning request body'' bodyErr))),
          clone_events e attempt)
     | None \<Rightarrow>
        (case base e attempt of
           Panic \<Rightarrow> (Returned Panic, clone_events e attempt @ [BaseRoundTrip attempt])
         | Return resp err \<Rightarrow>
            (case err of
               Some er \<Rightarrow>
                 (Returned (Return None (Some (Wrap ''round trip'' er))),
                  clone_events e attempt @ [BaseRoundTrip attempt])
             | None \<Rightarrow>
                (case resp of
                   None \<Rightarrow> (Returned Panic, clone_events e attempt @ [BaseRoundTrip attempt])
                 | Some r \<Rightarrow>
                    if \<not> shouldRetry (StatusCode r)
                    then (Returned (Return (Some r) None),
                          clone_events e attempt @ [BaseRoundTrip attempt])
                    else if int attempt < sint (maxRetries t)
                    then
                      let delay = baseDelay t * push_bit attempt 1;
                          evs = clone_events e attempt @
                                [BaseRoundTrip attempt, BodyClose attempt, Backoff attempt delay]
                      in (case ctxDone e attempt of
                            Some cerr \<Rightarrow>
                              (Returned (Return None (Some (Wrap ''retry wait'' cerr))), evs)
                          | None \<Rightarrow> (Continue r, evs))
                    else (Continue r, clone_events e attempt @ [BaseRoundTrip attempt])))))"

text \<open>
  The loop \<open>for attempt := range t.maxRetries + 1\<close>, from a given attempt on, with the
  current value of \<open>resp\<close>; after the last iteration comes the final \<open>return resp, nil\<close>.
\<close>

function retry_loop ::
  "retryTransport \<Rightarrow> call_env \<Rightarrow> nat \<Rightarrow> response option \<Rightarrow> outcome \<times> event list" where
  "retry_loop t e attempt resp =
    (if int attempt < sint (maxRetries t + 1)
     then (case attempt_step t e attempt of
             (Returned out, evs) \<Rightarrow> (out, evs)
           | (Continue r, evs) \<Rightarrow> apsnd ((@) evs) (retry_loop t e (Suc attempt) (Some r)))
     else (Return resp None, []))"
  by pat_completeness auto
termination
  by (relation "measure (\<lambda>(t, e, attempt, resp). nat (sint (maxRetries t + 1)) - attempt)") auto

definition RoundTrip :: "retryTransport \<Rightarrow> call_env \<Rightarrow> outcome \<times> event list" where
  "RoundTrip t e = retry_loop t e 0 None"

text \<open>The attempts of a run: the indices of its calls of the base transport, in order.\<close>

fun attempts :: "event list \<Rightarrow> nat list" where
  "attempts [] = []"
| "attempts (BaseRoundTrip k # tr) = k # attempts tr"
| "attempts (ev # tr) = attempts tr"

fun event_attempt :: "event \<Rightarrow> nat" where
  "event_attempt (GetBody k) = k"
| "event_attempt (BaseRoundTrip k) = k"
| "event_attempt (BodyClose k) = k"
| "event_attempt (Backoff k d) = k"

text \<open>Surroundings that behave the same way in every attempt.\<close>

definition every_attempt :: "'a \<Rightarrow> nat \<Rightarrow> 'a" where
  "every_attempt x attempt = x"

text \<open>
  The logging transport: the second argument is what \<open>t.base.RoundTrip(req)\<close> does for the
  request. The records written with \<open>slog.Debug\<close> are returned beside the outcome (their
  durations are left out).
\<close>

record request =
  Method :: string
  URL :: string

datatype log_record =
    HttpRequest string string
  | HttpError string string error
  | HttpResponse string string int

fun loggingTransport_RoundTrip :: "request \<Rightarrow> outcome \<Rightarrow> outcome \<times> log_record list" where
  "loggingTransport_RoundTrip req Panic = (Panic, [HttpRequest (Method req) (URL req)])"
| "loggingTransport_RoundTrip req (Return resp (Some err)) =
     (Return None (Some (Wrap ''logging round trip'' err)),
      [HttpRequest (Method req) (URL req), HttpError (Method req) (URL req) err])"
| "loggingTransport_RoundTrip req (Return None None) =
     (Panic, [HttpRequest (Method req) (URL req)])"
| "loggingTransport_RoundTrip req (Return (Some r) None) =
     (Return (Some r) None,
      [HttpRequest (Method req) (URL req), HttpResponse (Method req) (URL req) (StatusCode r)])"

section \<open>Properties of the text codec\<close>


lemma ReplaceAll_single:
  "ReplaceAll s [p] new = concat (map (\<lambda>c. if c = p then new else [c]) s)"
  by (induction s) simp_all

lemma ReplaceAll_pair_hit:
  "ReplaceAll (a # b # s) [a, b] new = new @ ReplaceAll s [a, b] new"
  by simp

lemma ReplaceAll_pair_other:
  "c \<noteq> a \<Longrightarrow> ReplaceAll (c # s) [a, b] new = c # ReplaceAll s [a, b] new"
  by simp

lemma ReplaceAll_pair_miss:
  "\<not> next_is b s \<Longrightarrow> ReplaceAll (a # s) [a, b] new = a # ReplaceAll s [a, b] new"
  by (cases s) simp_all

lemma next_is_ReplaceAll_pair:
  "\<not> next_is x s \<Longrightarrow> n \<noteq> x \<Longrightarrow> \<not> next_is x (ReplaceAll s [a, b] [n])"
  by (cases s) simp_all

lemma ReplaceAll_single_Cons:
  "ReplaceAll (c # s) [p] new = (if c = p then new else [c]) @ ReplaceAll s [p] new"
  by simp

lemma Encode_append: "Encode (xs @ ys) = Encode xs @ Encode ys"
  by (simp add: Encode_def ReplaceAll_single)

lemma Encode_Nil: "Encode [] = []"
  by (simp add: Encode_def)

lemma Encode_char: "Encode [c] = enc_char c"
  by (simp add: Encode_def enc_char_def ReplaceAll_single)

lemma Encode_Cons: "Encode (c # s) = enc_char c @ Encode s"
  using Encode_append [of "[c]" s] by (simp add: Encode_char)


lemmas RA_rules = ReplaceAll_pair_hit ReplaceAll_pair_other ReplaceAll_pair_miss
  next_is_ReplaceAll_pair ReplaceAll_single_Cons

lemma Decode_plain:
  "c \<noteq> CHR ''~'' \<Longrightarrow> c \<noteq> CHR 0x27 \<Longrightarrow> c \<noteq> CHR ''_'' \<Longrightarrow> c \<noteq> CHR ''-'' \<Longrightarrow>
   c \<noteq> NUL \<Longrightarrow> c \<noteq> SOH \<Longrightarrow> Decode (c # t) = c # Decode t"
  by (simp add: Decode_def RA_rules del: ReplaceAll.simps(2))

lemma Decode_underscore: "Decode (CHR ''_'' # CHR ''_'' # t) = CHR ''_'' # Decode t"
  by (simp add: Decode_def RA_rules del: ReplaceAll.simps(2))

lemma Decode_dash: "Decode (CHR ''-'' # CHR ''-'' # t) = CHR ''-'' # Decode t"
  by (simp add: Decode_def RA_rules del: ReplaceAll.simps(2))

lemma Decode_space:
  "\<not> next_is CHR ''_'' t \<Longrightarrow> Decode (CHR ''_'' # t) = CHR '' '' # Decode t"
  by (simp add: Decode_def RA_rules del: ReplaceAll.simps(2))

lemma Decode_dquote: "Decode (CHR 0x27 # CHR 0x27 # t) = DQUOTE # Decode t"
  by (simp add: Decode_def RA_rules del: ReplaceAll.simps(2))

lemma Decode_apostrophe:
  "\<not> next_is (CHR 0x27) t \<Longrightarrow> Decode (CHR 0x27 # t) = CHR 0x27 # Decode t"
  by (simp add: Decode_def RA_rules del: ReplaceAll.simps(2))

lemma Decode_escapes:
  "Decode (CHR ''~'' # CHR ''q'' # t) = CHR ''?'' # Decode t"
  "Decode (CHR ''~'' # CHR ''p'' # t) = CHR ''%'' # Decode t"
  "Decode (CHR ''~'' # CHR ''h'' # t) = CHR ''#'' # Decode t"
  "Decode (CHR ''~'' # CHR ''a'' # t) = CHR ''&'' # Decode t"
  "Decode (CHR ''~'' # CHR ''l'' # t) = CHR ''<'' # Decode t"
  "Decode (CHR ''~'' # CHR ''g'' # t) = CHR ''>'' # Decode t"
  "Decode (CHR ''~'' # CHR ''b'' # t) = BSLASH # Decode t"
  "Decode (CHR ''~'' # CHR ''s'' # t) = CHR ''/'' # Decode t"
  "Decode (CHR ''~'' # CHR ''n'' # t) = NEWLINE # Decode t"
  by (simp_all add: Decode_def RA_rules del: ReplaceAll.simps(2))

lemma Decode_tilde:
  "\<not> next_is CHR ''q'' t \<Longrightarrow> \<not> next_is CHR ''p'' t \<Longrightarrow> \<not> next_is CHR ''h'' t \<Longrightarrow>
   \<not> next_is CHR ''a'' t \<Longrightarrow> \<not> next_is CHR ''l'' t \<Longrightarrow> \<not> next_is CHR ''g'' t \<Longrightarrow>
   \<not> next_is CHR ''b'' t \<Longrightarrow> \<not> next_is CHR ''s'' t \<Longrightarrow> \<not> next_is CHR ''n'' t \<Longrightarrow>
   Decode (CHR ''~'' # t) = CHR ''~'' # Decode t"
  by (simp add: Decode_def RA_rules del: ReplaceAll.simps(2))


lemma contains_pair_Cons:
  "contains (c # s) [a, b] \<longleftrightarrow> (c = a \<and> next_is b s) \<or> contains s [a, b]"
  by (cases s) auto

lemma Decode_enc_char:
  assumes "c \<noteq> NUL" "c \<noteq> SOH"
    and "c = CHR '' '' \<Longrightarrow> \<not> next_is CHR ''_'' t"
    and "c = CHR 0x27 \<Longrightarrow> \<not> next_is (CHR 0x27) t"
    and "c = CHR ''~'' \<Longrightarrow> \<forall>x \<in> set ''qphalgbsn''. \<not> next_is x t"
  shows "Decode (enc_char c @ t) = c # Decode t"
proof -
  consider (tilde) "c = CHR ''~''" | (apo) "c = CHR 0x27" | (space) "c = CHR '' ''"
    | (rest) "c \<noteq> CHR ''~''" "c \<noteq> CHR 0x27" "c \<noteq> CHR '' ''"
    by blast
  then show ?thesis
  proof cases
    case tilde
    with assms(5) show ?thesis by (simp add: enc_char_def Decode_tilde)
  next
    case apo
    with assms(4) show ?thesis by (simp add: enc_char_def Decode_apostrophe)
  next
    case space
    with assms(3) show ?thesis by (simp add: enc_char_def Decode_space)
  next
    case rest
    with assms(1,2) show ?thesis
      by (simp add: enc_char_def Decode_plain Decode_underscore Decode_dash
          Decode_dquote Decode_escapes)
  qed
qed


lemma next_is_enc_char_underscore:
  "next_is CHR ''_'' (enc_char d) \<longleftrightarrow> d = CHR '' '' \<or> d = CHR ''_''"
  by (simp add: enc_char_def)

lemma next_is_enc_char_apostrophe:
  "next_is (CHR 0x27) (enc_char d) \<longleftrightarrow> d = CHR 0x27 \<or> d = DQUOTE"
  by (simp add: enc_char_def)

lemma next_is_enc_char_letter:
  "x \<in> set ''qphalgbsn'' \<Longrightarrow> next_is x (enc_char d) \<longleftrightarrow> d = x"
  by (simp add: enc_char_def) blast

lemma next_is_Encode:
  "next_is x (Encode (d # s)) \<longleftrightarrow> next_is x (enc_char d)"
proof -
  have "enc_char d \<noteq> []" by (simp add: enc_char_def)
  then obtain e es where "enc_char d = e # es" by (cases "enc_char d") auto
  then show ?thesis by (simp add: Encode_Cons)
qed




lemma roundtrip_safe_tail: "roundtrip_safe (c # s) \<Longrightarrow> roundtrip_safe s"
  by (simp add: roundtrip_safe_def contains_pair_Cons del: contains.simps)

lemma roundtrip_safe_head: "roundtrip_safe (c # s) \<Longrightarrow> c \<noteq> NUL \<and> c \<noteq> SOH"
  by (simp add: roundtrip_safe_def) blast

lemma roundtrip_safe_space:
  "roundtrip_safe (CHR '' '' # s) \<Longrightarrow> \<not> next_is CHR '' '' s \<and> \<not> next_is CHR ''_'' s"
  by (simp add: roundtrip_safe_def contains_pair_Cons del: contains.simps)

lemma roundtrip_safe_apostrophe:
  "roundtrip_safe (CHR 0x27 # s) \<Longrightarrow> \<not> next_is (CHR 0x27) s \<and> \<not> next_is DQUOTE s"
  by (simp add: roundtrip_safe_def contains_pair_Cons del: contains.simps)

lemma roundtrip_safe_tilde:
  "roundtrip_safe (CHR ''~'' # s) \<Longrightarrow> \<forall>x \<in> set ''qphalgbsn''. \<not> next_is x s"
  by (simp add: roundtrip_safe_def contains_pair_Cons del: contains.simps)

lemma Decode_Encode_safe: "roundtrip_safe s \<Longrightarrow> Decode (Encode s) = s"
proof (induction s)
  case Nil
  show ?case by (simp add: Encode_def Decode_def)
next
  case (Cons c s)
  note safe = roundtrip_safe_tail [OF Cons.prems]
  note c = roundtrip_safe_head [OF Cons.prems]
  have 1: "c = CHR '' '' \<Longrightarrow> \<not> next_is CHR ''_'' (Encode s)"
    using roundtrip_safe_space [of s] Cons.prems
    by (cases s) (simp_all add: Encode_Nil next_is_Encode next_is_enc_char_underscore)
  have 2: "c = CHR 0x27 \<Longrightarrow> \<not> next_is (CHR 0x27) (Encode s)"
    using roundtrip_safe_apostrophe [of s] Cons.prems
    by (cases s) (simp_all add: Encode_Nil next_is_Encode next_is_enc_char_apostrophe)
  have 3: "\<forall>x \<in> set ''qphalgbsn''. \<not> next_is x (Encode s)" if "c = CHR ''~''"
  proof (cases s)
    case Nil
    then show ?thesis by (simp add: Encode_Nil)
  next
    case (Cons d s')
    from that roundtrip_safe_tilde [of s] Cons.prems
    have "\<forall>x \<in> set ''qphalgbsn''. \<not> next_is x s" by blast
    then have "\<forall>x \<in> set ''qphalgbsn''. d \<noteq> x" using Cons by simp
    then show ?thesis
      unfolding Cons next_is_Encode using next_is_enc_char_letter by blast
  qed
  have "Decode (Encode (c # s)) = c # Decode (Encode s)"
    unfolding Encode_Cons using c 1 2 3 by (intro Decode_enc_char) blast+
  with Cons.IH [OF safe] show ?case by simp
qed


lemma take_append_Cons_eq:
  assumes "take (length old) (xs @ c # ys) = old" and "c \<notin> set old"
  shows "length old \<le> length xs"
proof (rule ccontr)
  assume "\<not> length old \<le> length xs"
  then have "take (length old) (xs @ c # ys) = xs @ c # take (length old - Suc (length xs)) ys"
    by (simp add: take_Cons')
  with assms show False by (metis in_set_conv_decomp)
qed


lemma ReplaceAll_hit:
  "old \<noteq> [] \<and> take (length old) (c # cs) = old \<Longrightarrow>
   ReplaceAll (c # cs) old new = new @ ReplaceAll (drop (length old) (c # cs)) old new"
  by (simp del: take_Suc_Cons drop_Suc_Cons)

lemma ReplaceAll_miss:
  "\<not> (old \<noteq> [] \<and> take (length old) (c # cs) = old) \<Longrightarrow>
   ReplaceAll (c # cs) old new = c # ReplaceAll cs old new"
  by (auto simp del: take_Suc_Cons drop_Suc_Cons)

lemma ReplaceAll_split:
  "c \<notin> set old \<Longrightarrow>
   ReplaceAll (xs @ c # ys) old new = ReplaceAll xs old new @ c # ReplaceAll ys old new"
proof (induction xs old new rule: ReplaceAll.induct)
  case (1 old new)
  then have "take (length old) (c # ys) \<noteq> old \<or> old = []"
    by (cases old) auto
  then show ?case by auto
next
  case (2 x xs old new)
  let ?zs = "xs @ c # ys"
  show ?case
  proof (cases "old \<noteq> [] \<and> take (length old) (x # ?zs) = old")
    case True
    then have "take (length old) ((x # xs) @ c # ys) = old" by simp
    then have le: "length old \<le> length (x # xs)"
      using "2.prems" by (rule take_append_Cons_eq)
    then have "take (length old) ((x # xs) @ c # ys) = take (length old) (x # xs)"
      and "drop (length old) ((x # xs) @ c # ys) = drop (length old) (x # xs) @ c # ys"
      by (simp_all only: take_append drop_append) simp_all
    then have t: "take (length old) (x # ?zs) = take (length old) (x # xs)"
      and d: "drop (length old) (x # ?zs) = drop (length old) (x # xs) @ c # ys"
      by (simp_all only: append_Cons)
    from True t have hit: "old \<noteq> [] \<and> take (length old) (x # xs) = old" by simp
    have "ReplaceAll (x # ?zs) old new = new @ ReplaceAll (drop (length old) (x # ?zs)) old new"
      using True by (rule ReplaceAll_hit)
    also have "\<dots> = new @ ReplaceAll (drop (length old) (x # xs)) old new @ c # ReplaceAll ys old new"
      using "2.IH"(1) [OF hit "2.prems"] by (simp only: d)
    also have "\<dots> = ReplaceAll (x # xs) old new @ c # ReplaceAll ys old new"
      using ReplaceAll_hit [OF hit, of new] by simp
    finally show ?thesis by (simp only: append_Cons)
  next
    case False
    have miss: "\<not> (old \<noteq> [] \<and> take (length old) (x # xs) = old)"
    proof
      assume h: "old \<noteq> [] \<and> take (length old) (x # xs) = old"
      then have "length (take (length old) (x # xs)) = length old" by (simp only:)
      then have "length old \<le> length (x # xs)"
        by (simp only: length_take)
      then have "take (length old) ((x # xs) @ c # ys) = take (length old) (x # xs)"
        by (simp only: take_append) simp
      with h False show False by (simp only: append_Cons) simp
    qed
    have "ReplaceAll (x # ?zs) old new = x # ReplaceAll ?zs old new"
      using False by (rule ReplaceAll_miss)
    also have "\<dots> = x # ReplaceAll xs old new @ c # ReplaceAll ys old new"
      using "2.IH"(2) [OF miss "2.prems"] by simp
    also have "\<dots> = ReplaceAll (x # xs) old new @ c # ReplaceAll ys old new"
      using ReplaceAll_miss [OF miss, of new] by simp
    finally show ?thesis by (simp only: append_Cons)
  qed
qed

lemma ReplaceAll_single_append:
  "ReplaceAll (xs @ ys) [p] new = ReplaceAll xs [p] new @ ReplaceAll ys [p] new"
  by (simp add: ReplaceAll_single)

lemma Decode_split_NUL: "Decode (xs @ NUL # ys) = Decode xs @ CHR ''_'' # Decode ys"
  by (simp add: Decode_def ReplaceAll_split ReplaceAll_single_append ReplaceAll_single_Cons
      del: ReplaceAll.simps(2))

lemma Decode_split_SOH: "Decode (xs @ SOH # ys) = Decode xs @ CHR ''-'' # Decode ys"
  by (simp add: Decode_def ReplaceAll_split ReplaceAll_single_append ReplaceAll_single_Cons
      del: ReplaceAll.simps(2))

lemma Encode_concat_map: "Encode s = concat (map enc_char s)"
  by (induction s) (simp_all add: Encode_Nil Encode_Cons)

lemma enc_char_placeholder:
  "NUL \<in> set (enc_char c) \<longleftrightarrow> c = NUL" "SOH \<in> set (enc_char c) \<longleftrightarrow> c = SOH"
  by (auto simp add: enc_char_def)

lemma Encode_placeholder_free:
  "NUL \<in> set (Encode s) \<longleftrightarrow> NUL \<in> set s" "SOH \<in> set (Encode s) \<longleftrightarrow> SOH \<in> set s"
  by (induction s) (simp_all add: Encode_Nil Encode_Cons enc_char_placeholder eq_commute)



lemma Decode_Nil: "Decode [] = []"
  by (simp add: Decode_def)

lemma Decode_NUL_Cons: "Decode (NUL # t) = CHR ''_'' # Decode t"
  using Decode_split_NUL [of "[]" t] by (simp add: Decode_Nil)

lemma Decode_SOH_Cons: "Decode (SOH # t) = CHR ''-'' # Decode t"
  using Decode_split_SOH [of "[]" t] by (simp add: Decode_Nil)

lemma roundtrip_safe_ConsI:
  assumes "roundtrip_safe s" "c \<noteq> NUL" "c \<noteq> SOH"
    and "c = CHR '' '' \<Longrightarrow> \<not> next_is CHR '' '' s \<and> \<not> next_is CHR ''_'' s"
    and "c = CHR 0x27 \<Longrightarrow> \<not> next_is (CHR 0x27) s \<and> \<not> next_is DQUOTE s"
    and "c = CHR ''~'' \<Longrightarrow> \<forall>x \<in> set ''qphalgbsn''. \<not> next_is x s"
  shows "roundtrip_safe (c # s)"
  using assms
  by (simp add: roundtrip_safe_def contains_pair_Cons del: contains.simps)

text \<open>Where a text is not safe at its first byte, decoding its encoding changes that byte.\<close>

lemma next_is_Cons_ex: "next_is x s \<Longrightarrow> \<exists>s'. s = x # s'"
  by (cases s) simp_all

lemma unsafe_space_changes:
  assumes "next_is CHR '' '' s \<or> next_is CHR ''_'' s"
  shows "\<not> next_is CHR '' '' (Decode (Encode (CHR '' '' # s)))"
proof -
  from assms obtain s' where "s = CHR '' '' # s' \<or> s = CHR ''_'' # s'"
    using next_is_Cons_ex by blast
  then show ?thesis
  proof
    assume "s = CHR '' '' # s'"
    then show ?thesis by (simp add: Encode_Cons enc_char_def Decode_underscore)
  next
    assume "s = CHR ''_'' # s'"
    then show ?thesis by (simp add: Encode_Cons enc_char_def Decode_underscore)
  qed
qed

lemma unsafe_apostrophe_changes:
  assumes "next_is (CHR 0x27) s \<or> next_is DQUOTE s"
  shows "\<not> next_is (CHR 0x27) (Decode (Encode (CHR 0x27 # s)))"
proof -
  from assms obtain s' where "s = CHR 0x27 # s' \<or> s = DQUOTE # s'"
    using next_is_Cons_ex by blast
  then show ?thesis
  proof
    assume "s = CHR 0x27 # s'"
    then show ?thesis by (simp add: Encode_Cons enc_char_def Decode_dquote)
  next
    assume "s = DQUOTE # s'"
    then show ?thesis by (simp add: Encode_Cons enc_char_def Decode_dquote)
  qed
qed

lemma unsafe_tilde_changes:
  assumes "x \<in> set ''qphalgbsn''" "next_is x s"
  shows "\<not> next_is CHR ''~'' (Decode (Encode (CHR ''~'' # s)))"
proof -
  from assms(2) obtain s' where s: "s = x # s'" using next_is_Cons_ex by blast
  have esc: "\<not> next_is CHR ''~'' (Decode (Encode (CHR ''~'' # y # s')))"
    if "y = CHR ''q'' \<or> y = CHR ''p'' \<or> y = CHR ''h'' \<or> y = CHR ''a'' \<or> y = CHR ''l'' \<or>
        y = CHR ''g'' \<or> y = CHR ''b'' \<or> y = CHR ''s'' \<or> y = CHR ''n''" for y
    using that
    by (elim disjE) (simp_all add: Encode_Cons enc_char_def Decode_escapes)
  from assms(1) have "x = CHR ''q'' \<or> x = CHR ''p'' \<or> x = CHR ''h'' \<or> x = CHR ''a'' \<or>
      x = CHR ''l'' \<or> x = CHR ''g'' \<or> x = CHR ''b'' \<or> x = CHR ''s'' \<or> x = CHR ''n''"
    by simp
  then show ?thesis unfolding s by (rule esc)
qed

lemma Decode_Encode_only_safe: "Decode (Encode s) = s \<Longrightarrow> roundtrip_safe s"
proof (induction s)
  case Nil
  show ?case by (simp add: roundtrip_safe_def)
next
  case (Cons c s)
  have head: "next_is c (Decode (Encode (c # s)))"
    using Cons.prems by simp
  have nul: "c \<noteq> NUL"
  proof
    assume "c = NUL"
    with head show False by (simp add: Encode_Cons enc_char_def Decode_NUL_Cons)
  qed
  have soh: "c \<noteq> SOH"
  proof
    assume "c = SOH"
    with head show False by (simp add: Encode_Cons enc_char_def Decode_SOH_Cons)
  qed
  have sp: "\<not> next_is CHR '' '' s \<and> \<not> next_is CHR ''_'' s" if "c = CHR '' ''"
    using head unsafe_space_changes [of s] unfolding that by blast
  have ap: "\<not> next_is (CHR 0x27) s \<and> \<not> next_is DQUOTE s" if "c = CHR 0x27"
    using head unsafe_apostrophe_changes [of s] unfolding that by blast
  have ti: "\<forall>x \<in> set ''qphalgbsn''. \<not> next_is x s" if "c = CHR ''~''"
    using head unsafe_tilde_changes [of _ s] unfolding that by blast
  have 1: "c = CHR '' '' \<Longrightarrow> \<not> next_is CHR ''_'' (Encode s)"
    using sp by (cases s) (simp_all add: Encode_Nil next_is_Encode next_is_enc_char_underscore)
  have 2: "c = CHR 0x27 \<Longrightarrow> \<not> next_is (CHR 0x27) (Encode s)"
    using ap by (cases s) (simp_all add: Encode_Nil next_is_Encode next_is_enc_char_apostrophe)
  have 3: "\<forall>x \<in> set ''qphalgbsn''. \<not> next_is x (Encode s)" if "c = CHR ''~''"
  proof (cases s)
    case Nil
    then show ?thesis by (simp add: Encode_Nil)
  next
    case (Cons d s')
    from ti [OF that] have "\<forall>x \<in> set ''qphalgbsn''. d \<noteq> x" using Cons by simp
    then show ?thesis
      unfolding Cons next_is_Encode using next_is_enc_char_letter by blast
  qed
  have "Decode (Encode (c # s)) = c # Decode (Encode s)"
    unfolding Encode_Cons using nul soh 1 2 3 by (rule Decode_enc_char)
  with Cons.prems have "Decode (Encode s) = s" by simp
  then have "roundtrip_safe s" by (rule Cons.IH)
  then show ?case using nul soh sp ap ti by (rule roundtrip_safe_ConsI)
qed

subsection \<open>The claims about the codec\<close>

text \<open>
  C8. \<open>Encode\<close> turns the two spaces of \<open>"a  b"\<close> into two underscores, \<open>Decode\<close> reads the
  double underscore of \<open>"a__b"\<close> as one literal underscore, and so decoding the encoded text
  gives \<open>"a_b"\<close> and not the text with two spaces.
\<close>

theorem two_spaces_lossy:
  "Encode ''a  b'' = ''a__b'' \<and> Decode ''a__b'' = ''a_b'' \<and>
   Decode (Encode ''a  b'') = ''a_b'' \<and> Decode (Encode ''a  b'') \<noteq> ''a  b''"
  by (simp add: Encode_def Decode_def)

text \<open>
  C9. \<open>Encode "under_score" = "under__score"\<close> and \<open>Encode "dash-case" = "dash--case"\<close>.
  Wherever they stand in a text, a literal underscore is encoded as two underscores and a
  literal dash as two dashes, while a space is encoded as one underscore: the underscores
  that come from spaces are not doubled, because the doubling pass runs before the pass
  that converts spaces. So the encoding of an underscore differs from the encoding of a
  space, and decoding tells \<open>under_score\<close> from \<open>under score\<close>.
\<close>

theorem Encode_escapes_before_spaces:
  "Encode ''under_score'' = ''under__score'' \<and> Encode ''dash-case'' = ''dash--case'' \<and>
   Encode (xs @ CHR ''_'' # ys) = Encode xs @ ''__'' @ Encode ys \<and>
   Encode (xs @ CHR ''-'' # ys) = Encode xs @ ''--'' @ Encode ys \<and>
   Encode (xs @ CHR '' '' # ys) = Encode xs @ ''_'' @ Encode ys \<and>
   Encode ''under score'' = ''under_score'' \<and> Encode ''_'' \<noteq> Encode '' '' \<and>
   Decode (Encode ''under_score'') = ''under_score'' \<and>
   Decode (Encode ''under score'') = ''under score'' \<and>
   Decode (Encode ''dash-case'') = ''dash-case''"
proof -
  have "Encode ''under_score'' = ''under__score''" "Encode ''dash-case'' = ''dash--case''"
    "Encode ''under score'' = ''under_score''" "Encode ''_'' \<noteq> Encode '' ''"
    "Decode (Encode ''under_score'') = ''under_score''"
    "Decode (Encode ''under score'') = ''under score''"
    "Decode (Encode ''dash-case'') = ''dash-case''"
    by (simp_all add: Encode_def Decode_def)
  moreover have "Encode (xs @ c # ys) = Encode xs @ enc_char c @ Encode ys" for c
    by (simp add: Encode_append Encode_Cons)
  from this [of "CHR ''_''"] this [of "CHR ''-''"] this [of "CHR '' ''"]
  have "Encode (xs @ CHR ''_'' # ys) = Encode xs @ ''__'' @ Encode ys"
    "Encode (xs @ CHR ''-'' # ys) = Encode xs @ ''--'' @ Encode ys"
    "Encode (xs @ CHR '' '' # ys) = Encode xs @ ''_'' @ Encode ys"
    by (simp_all add: enc_char_def)
  ultimately show ?thesis by (intro conjI)
qed

text \<open>
  C10. \<open>Decode\<close> replaces every byte \<open>0x00\<close> of its input by an underscore and every byte
  \<open>0x01\<close> by a dash, whatever surrounds them: the text before and the text after the byte
  are decoded on their own. In particular \<open>Decode "\x00" = "_"\<close> and \<open>Decode "\x01" = "-"\<close>,
  which differ from the input. \<open>Encode\<close> does not introduce either byte: its output holds
  one exactly when its input does.
\<close>

theorem Decode_placeholder_bytes:
  "Decode (xs @ NUL # ys) = Decode xs @ CHR ''_'' # Decode ys \<and>
   Decode (xs @ SOH # ys) = Decode xs @ CHR ''-'' # Decode ys \<and>
   Decode [NUL] = ''_'' \<and> Decode [SOH] = ''-'' \<and>
   Decode [NUL] \<noteq> [NUL] \<and> Decode [SOH] \<noteq> [SOH] \<and>
   (NUL \<in> set (Encode s) \<longleftrightarrow> NUL \<in> set s) \<and> (SOH \<in> set (Encode s) \<longleftrightarrow> SOH \<in> set s)"
proof -
  have "Decode [NUL] = ''_''" "Decode [SOH] = ''-''"
    by (simp_all add: Decode_def)
  then show ?thesis
    by (simp add: Decode_split_NUL Decode_split_SOH Encode_placeholder_free)
qed

text \<open>
  C1, as stated, fails. None of the following texts contains three consecutive spaces, and
  none of them is what decoding its encoding gives: two spaces; a space before an
  underscore; a tilde before a letter of a tilde escape; two apostrophes; an apostrophe
  before a double quote; the bytes \<open>0x00\<close> and \<open>0x01\<close>.
\<close>

theorem Decode_Encode_roundtrip_counterexample:
  "(\<not> contains ''a  b'' ''   '' \<and> Decode (Encode ''a  b'') \<noteq> ''a  b'') \<and>
   (\<not> contains '' _'' ''   '' \<and> Decode (Encode '' _'') \<noteq> '' _'') \<and>
   (\<not> contains ''~q'' ''   '' \<and> Decode (Encode ''~q'') \<noteq> ''~q'') \<and>
   (\<not> contains ''~p'' ''   '' \<and> Decode (Encode ''~p'') \<noteq> ''~p'') \<and>
   (\<not> contains ''~h'' ''   '' \<and> Decode (Encode ''~h'') \<noteq> ''~h'') \<and>
   (\<not> contains ''~a'' ''   '' \<and> Decode (Encode ''~a'') \<noteq> ''~a'') \<and>
   (\<not> contains ''~l'' ''   '' \<and> Decode (Encode ''~l'') \<noteq> ''~l'') \<and>
   (\<not> contains ''~g'' ''   '' \<and> Decode (Encode ''~g'') \<noteq> ''~g'') \<and>
   (\<not> contains ''~b'' ''   '' \<and> Decode (Encode ''~b'') \<noteq> ''~b'') \<and>
   (\<not> contains ''~s'' ''   '' \<and> Decode (Encode ''~s'') \<noteq> ''~s'') \<and>
   (\<not> contains ''~n'' ''   '' \<and> Decode (Encode ''~n'') \<noteq> ''~n'') \<and>
   (\<not> contains [CHR 0x27, CHR 0x27] ''   '' \<and>
      Decode (Encode [CHR 0x27, CHR 0x27]) \<noteq> [CHR 0x27, CHR 0x27]) \<and>
   (\<not> contains [CHR 0x27, DQUOTE] ''   '' \<and>
      Decode (Encode [CHR 0x27, DQUOTE]) \<noteq> [CHR 0x27, DQUOTE]) \<and>
   (\<not> contains [NUL] ''   '' \<and> Decode (Encode [NUL]) \<noteq> [NUL]) \<and>
   (\<not> contains [SOH] ''   '' \<and> Decode (Encode [SOH]) \<noteq> [SOH])"
  by (simp add: Encode_def Decode_def)

text \<open>
  C1, amended. Decoding the encoded text gives the text back exactly for the texts that
  contain neither the byte \<open>0x00\<close> nor the byte \<open>0x01\<close>, no space immediately followed by
  a space or an underscore, no apostrophe immediately followed by an apostrophe or a
  double quote, and no tilde immediately followed by one of the letters
  \<open>q p h a l g b s n\<close>: for every such text \<open>Decode (Encode s) = s\<close>, and for no other.
\<close>

theorem Decode_Encode_roundtrip_safe: "Decode (Encode s) = s \<longleftrightarrow> roundtrip_safe s"
proof
  assume "Decode (Encode s) = s"
  then show "roundtrip_safe s" by (rule Decode_Encode_only_safe)
next
  assume "roundtrip_safe s"
  then show "Decode (Encode s) = s" by (rule Decode_Encode_safe)
qed

theorem Decode_Encode_roundtrip_safe_witness:
  "roundtrip_safe ''it's a_b-c: 100% ~/? <ok> & ~~'' \<and>
   Decode (Encode ''it's a_b-c: 100% ~/? <ok> & ~~'') = ''it's a_b-c: 100% ~/? <ok> & ~~''"
proof -
  have safe: "roundtrip_safe ''it's a_b-c: 100% ~/? <ok> & ~~''"
    by (simp add: roundtrip_safe_def)
  show ?thesis
    by (rule conjI [OF safe iffD2 [OF Decode_Encode_roundtrip_safe safe]])
qed

section \<open>Properties of the transport\<close>

lemmas status_defs = shouldRetry_def StatusTooManyRequests_def StatusInternalServerError_def
  StatusGatewayTimeout_def

text \<open>
  C2. \<open>shouldRetry\<close> is true exactly for the status 429 and the statuses from 500 to 504,
  and false for every other status; in particular it is false for 200, 301, 400, 401, 404
  and 505.
\<close>

theorem shouldRetry_classification:
  "(shouldRetry code \<longleftrightarrow> code = 429 \<or> code = 500 \<or> code = 501 \<or> code = 502 \<or> code = 503 \<or> code = 504) \<and>
   (shouldRetry code \<longleftrightarrow> code = 429 \<or> (500 \<le> code \<and> code \<le> 504)) \<and>
   \<not> shouldRetry 200 \<and> \<not> shouldRetry 301 \<and> \<not> shouldRetry 400 \<and>
   \<not> shouldRetry 401 \<and> \<not> shouldRetry 404 \<and> \<not> shouldRetry 505"
  unfolding status_defs by auto

text \<open>
  C6, as stated, fails on an error: when the base transport returns the error
  \<open>connection refused\<close>, the logging transport returns another error value, the error
  \<open>logging round trip: connection refused\<close> that wraps it.
\<close>

theorem loggingTransport_error_counterexample:
  "fst (loggingTransport_RoundTrip \<lparr>Method = ''GET'', URL = ''/images''\<rparr>
          (Return None (Some (Err ''connection refused''))))
     = Return None (Some (Wrap ''logging round trip'' (Err ''connection refused''))) \<and>
   fst (loggingTransport_RoundTrip \<lparr>Method = ''GET'', URL = ''/images''\<rparr>
          (Return None (Some (Err ''connection refused''))))
     \<noteq> Return None (Some (Err ''connection refused'')) \<and>
   Error (Wrap ''logging round trip'' (Err ''connection refused''))
     = ''logging round trip: connection refused''"
  by simp

text \<open>
  C6, amended. The logging transport keeps the call a success or a failure as the base
  transport made it: a response that the base transport returns without an error is
  returned unchanged, with no error; an error of the base transport is returned wrapped
  under the prefix \<open>logging round trip\<close>, with a nil response, and unwrapping it gives the
  base transport's error.
\<close>

theorem loggingTransport_outcome:
  "fst (loggingTransport_RoundTrip req (Return (Some r) None)) = Return (Some r) None \<and>
   fst (loggingTransport_RoundTrip req (Return resp (Some err)))
     = Return None (Some (Wrap ''logging round trip'' err)) \<and>
   Unwrap (Wrap ''logging round trip'' err) = Some err \<and>
   Error (Wrap ''logging round trip'' err) = ''logging round trip: '' @ Error err"
  by simp

subsection \<open>The retry loop\<close>



lemma sint_succ_le: "sint (w + 1 :: 64 word) \<le> sint w + 1"
proof -
  have "sint (w + 1) = signed_take_bit 63 (sint w + 1)"
    by (simp add: sint_word_ariths)
  moreover have "- (2 ^ 63) \<le> sint w + 1"
    using sint_ge [of w] by simp
  ultimately show ?thesis
    by (simp only: signed_take_bit_int_less_eq_self_iff)
qed

lemma sint_succ_eq: "0 \<le> sint (w + 1 :: 64 word) \<Longrightarrow> sint (w + 1) = sint w + 1"
proof -
  assume nonneg: "0 \<le> sint (w + 1)"
  have eq: "sint (w + 1) = signed_take_bit 63 (sint w + 1)"
    by (simp add: sint_word_ariths)
  have lo: "- (2 ^ 63) \<le> sint w + 1" using sint_ge [of w] by simp
  have hi: "sint w + 1 \<le> 2 ^ 63" using sint_lt [of w] by simp
  show ?thesis
  proof (cases "sint w + 1 < 2 ^ 63")
    case True
    with lo show ?thesis unfolding eq by (simp add: signed_take_bit_int_eq_self)
  next
    case False
    with hi have "sint w + 1 = 2 ^ 63" by simp
    then have "sint (w + 1) = signed_take_bit 63 (2 ^ 63 :: int)" using eq by simp
    also have "\<dots> < 0" by (simp add: signed_take_bit_eq_take_bit_minus)
    finally show ?thesis using nonneg by simp
  qed
qed

lemma final_attempt:
  "int a < sint (m + 1 :: 64 word) \<Longrightarrow> \<not> int a < sint m \<Longrightarrow> \<not> int (Suc a) < sint (m + 1)"
  using sint_succ_le [of m] by simp

lemma more_attempts:
  "int a < sint (m + 1 :: 64 word) \<Longrightarrow> int a < sint m \<Longrightarrow> int (Suc a) < sint (m + 1)"
  using sint_succ_eq [of m] by simp

lemma attempts_append: "attempts (xs @ ys) = attempts xs @ attempts ys"
  by (induction xs rule: attempts.induct) simp_all

lemma attempts_clone_events: "attempts (clone_events e a) = []"
  by (simp add: clone_events_def split: option.splits)

lemma clone_events_attempt: "ev \<in> set (clone_events e a) \<Longrightarrow> ev = GetBody a"
  by (simp add: clone_events_def split: option.splits)

lemma clone_error_events: "clone_error e a = Some be \<Longrightarrow> clone_events e a = [GetBody a]"
  by (simp add: clone_error_def clone_events_def split: option.splits)

text \<open>The ways one iteration can go.\<close>

lemma attempt_step_cases [case_names clone_failed panic transport_error nil_response
    final_status cancelled retry exhausted]:
  obtains bodyErr where "clone_error e a = Some bodyErr"
      "attempt_step t e a =
         (Returned (Return None (Some (Wrap ''cloning request body'' bodyErr))), [GetBody a])"
  | "clone_error e a = None" "base e a = Panic"
      "attempt_step t e a = (Returned Panic, clone_events e a @ [BaseRoundTrip a])"
  | resp err where "clone_error e a = None" "base e a = Return resp (Some err)"
      "attempt_step t e a =
         (Returned (Return None (Some (Wrap ''round trip'' err))),
          clone_events e a @ [BaseRoundTrip a])"
  | "clone_error e a = None" "base e a = Return None None"
      "attempt_step t e a = (Returned Panic, clone_events e a @ [BaseRoundTrip a])"
  | r where "clone_error e a = None" "base e a = Return (Some r) None"
      "\<not> shouldRetry (StatusCode r)"
      "attempt_step t e a = (Returned (Return (Some r) None), clone_events e a @ [BaseRoundTrip a])"
  | r cerr where "clone_error e a = None" "base e a = Return (Some r) None"
      "shouldRetry (StatusCode r)" "int a < sint (maxRetries t)" "ctxDone e a = Some cerr"
      "attempt_step t e a =
         (Returned (Return None (Some (Wrap ''retry wait'' cerr))),
          clone_events e a @
          [BaseRoundTrip a, BodyClose a, Backoff a (baseDelay t * push_bit a 1)])"
  | r where "clone_error e a = None" "base e a = Return (Some r) None"
      "shouldRetry (StatusCode r)" "int a < sint (maxRetries t)" "ctxDone e a = None"
      "attempt_step t e a =
         (Continue r,
          clone_events e a @
          [BaseRoundTrip a, BodyClose a, Backoff a (baseDelay t * push_bit a 1)])"
  | r where "clone_error e a = None" "base e a = Return (Some r) None"
      "shouldRetry (StatusCode r)" "\<not> int a < sint (maxRetries t)"
      "attempt_step t e a = (Continue r, clone_events e a @ [BaseRoundTrip a])"
proof (cases "clone_error e a")
  case (Some bodyErr)
  then show ?thesis
    using that(1) [of bodyErr] by (simp add: attempt_step_def clone_error_events)
next
  case None
  show ?thesis
  proof (cases "base e a")
    case Panic
    with None show ?thesis using that(2) by (simp add: attempt_step_def)
  next
    case (Return resp err)
    show ?thesis
    proof (cases err)
      case (Some er)
      with None Return show ?thesis using that(3) [of resp er] by (simp add: attempt_step_def)
    next
      case noerr: None
      show ?thesis
      proof (cases resp)
        case None
        with \<open>clone_error e a = None\<close> Return noerr show ?thesis
          using that(4) by (simp add: attempt_step_def)
      next
        case (Some r)
        note base = Return [unfolded noerr Some]
        show ?thesis
        proof (cases "shouldRetry (StatusCode r)")
          case False
          with None base show ?thesis using that(5) [of r] by (simp add: attempt_step_def)
        next
          case True
          show ?thesis
          proof (cases "int a < sint (maxRetries t)")
            case False
            with None base True show ?thesis
              using that(8) [of r] by (simp add: attempt_step_def)
          next
            case more: True
            show ?thesis
            proof (cases "ctxDone e a")
              case (Some cerr)
              with None base True more show ?thesis
                using that(6) [of r cerr] by (simp add: attempt_step_def)
            next
              case ok: None
              with None base True more show ?thesis
                using that(7) [of r] by (simp add: attempt_step_def)
            qed
          qed
        qed
      qed
    qed
  qed
qed

lemma retry_loop_done:
  "\<not> int a < sint (maxRetries t + 1) \<Longrightarrow> retry_loop t e a resp = (Return resp None, [])"
  by simp

lemma retry_loop_Returned:
  "int a < sint (maxRetries t + 1) \<Longrightarrow> attempt_step t e a = (Returned out, evs) \<Longrightarrow>
   retry_loop t e a resp = (out, evs)"
  by simp

lemma retry_loop_Continue:
  "int a < sint (maxRetries t + 1) \<Longrightarrow> attempt_step t e a = (Continue r, evs) \<Longrightarrow>
   retry_loop t e a resp = apsnd ((@) evs) (retry_loop t e (Suc a) (Some r))"
  by simp

declare retry_loop.simps [simp del]

lemma retry_loop_induct [consumes 0, case_names finished returned continued]:
  assumes "\<And>a resp. \<not> int a < sint (maxRetries t + 1) \<Longrightarrow> P a resp"
    and "\<And>a resp out evs. int a < sint (maxRetries t + 1) \<Longrightarrow>
           attempt_step t e a = (Returned out, evs) \<Longrightarrow> P a resp"
    and "\<And>a resp r evs. int a < sint (maxRetries t + 1) \<Longrightarrow>
           attempt_step t e a = (Continue r, evs) \<Longrightarrow> P (Suc a) (Some r) \<Longrightarrow> P a resp"
  shows "P a resp"
proof (induction "nat (sint (maxRetries t + 1)) - a" arbitrary: a resp)
  case 0
  then have "\<not> int a < sint (maxRetries t + 1)" by linarith
  then show ?case by (rule assms(1))
next
  case (Suc n)
  then have range: "int a < sint (maxRetries t + 1)" by linarith
  obtain it evs where step: "attempt_step t e a = (it, evs)" by (cases "attempt_step t e a")
  show ?case
  proof (cases it)
    case (Returned out)
    with range step show ?thesis using assms(2) by blast
  next
    case (Continue r)
    from Suc.hyps(2) have "n = nat (sint (maxRetries t + 1)) - Suc a" by linarith
    then have "P (Suc a) (Some r)" by (rule Suc.hyps(1))
    with range step Continue show ?thesis using assms(3) by blast
  qed
qed


lemma clone_events_event_attempt: "ev \<in> set (clone_events e a) \<Longrightarrow> event_attempt ev = a"
  by (simp add: clone_events_def split: option.splits)

lemma attempt_step_event_attempt:
  "ev \<in> set (snd (attempt_step t e a)) \<Longrightarrow> event_attempt ev = a"
  by (cases t e a rule: attempt_step_cases) (auto simp: clone_events_event_attempt)

lemma retry_loop_event_attempt:
  "ev \<in> set (snd (retry_loop t e a resp)) \<Longrightarrow> a \<le> event_attempt ev"
proof (induction a resp rule: retry_loop_induct [of t _ e])
  case (finished a resp)
  then show ?case by (simp add: retry_loop_done)
next
  case (returned a resp out evs)
  then show ?case
    using attempt_step_event_attempt [of ev t e a] by (simp add: retry_loop_Returned)
next
  case (continued a resp r evs)
  then show ?case
    using attempt_step_event_attempt [of ev t e a] by (auto simp: retry_loop_Continue)
qed

lemma attempt_step_nonempty: "snd (attempt_step t e a) \<noteq> []"
  by (cases t e a rule: attempt_step_cases) simp_all

lemma retry_loop_nonempty:
  "int a < sint (maxRetries t + 1) \<Longrightarrow> snd (retry_loop t e a resp) \<noteq> []"
proof -
  assume range: "int a < sint (maxRetries t + 1)"
  obtain it evs where step: "attempt_step t e a = (it, evs)" by (cases "attempt_step t e a")
  with attempt_step_nonempty [of t e a] have "evs \<noteq> []" by simp
  with range step show ?thesis
    by (cases it) (simp_all add: retry_loop_Returned retry_loop_Continue)
qed



lemma attempt_step_ContinueD:
  assumes "attempt_step t e a = (Continue r, evs)"
  shows "base e a = Return (Some r) None"
    and "clone_error e a = None"
    and "shouldRetry (StatusCode r)"
    and "attempts evs = [a]"
    and "int a < sint (maxRetries t) \<Longrightarrow>
           ctxDone e a = None \<and>
           evs = clone_events e a @
                 [BaseRoundTrip a, BodyClose a, Backoff a (baseDelay t * push_bit a 1)]"
    and "\<not> int a < sint (maxRetries t) \<Longrightarrow> evs = clone_events e a @ [BaseRoundTrip a]"
proof -
  show "base e a = Return (Some r) None"
    using assms by (cases t e a rule: attempt_step_cases) simp_all
  show "clone_error e a = None"
    using assms by (cases t e a rule: attempt_step_cases) simp_all
  show "shouldRetry (StatusCode r)"
    using assms by (cases t e a rule: attempt_step_cases) simp_all
  show "attempts evs = [a]"
    using assms
    by (cases t e a rule: attempt_step_cases)
       (auto simp add: attempts_append attempts_clone_events)
  show "ctxDone e a = None \<and>
        evs = clone_events e a @
              [BaseRoundTrip a, BodyClose a, Backoff a (baseDelay t * push_bit a 1)]"
    if "int a < sint (maxRetries t)"
    using assms that by (cases t e a rule: attempt_step_cases) simp_all
  show "evs = clone_events e a @ [BaseRoundTrip a]" if "\<not> int a < sint (maxRetries t)"
    using assms that by (cases t e a rule: attempt_step_cases) simp_all
qed


lemma last_clone_events_append [simp]: "last (clone_events e a @ xs @ [x]) = x"
  by (simp add: last_append)

lemma attempt_step_transport_error:
  assumes step: "attempt_step t e a = (Returned out, evs)"
    and ev: "BaseRoundTrip k \<in> set evs"
    and err: "base e k = Return r0 (Some err)"
  shows "k = a \<and> out = Return None (Some (Wrap ''round trip'' err)) \<and>
         last evs = BaseRoundTrip k \<and> attempts evs = [k]"
proof -
  from step ev attempt_step_event_attempt [of "BaseRoundTrip k" t e a] have k: "k = a" by simp
  show ?thesis
  proof (cases t e a rule: attempt_step_cases)
    case (clone_failed bodyErr)
    with step ev show ?thesis by auto
  next
    case panic
    with err k show ?thesis by simp
  next
    case (transport_error resp err')
    with step err k show ?thesis
      by (auto simp add: attempts_append attempts_clone_events)
  next
    case nil_response
    with err k show ?thesis by simp
  next
    case (final_status r)
    with err k show ?thesis by simp
  next
    case (cancelled r cerr)
    with err k show ?thesis by simp
  next
    case (retry r)
    with err k show ?thesis by simp
  next
    case (exhausted r)
    with err k show ?thesis by simp
  qed
qed

lemma transport_error_loop:
  assumes "BaseRoundTrip k \<in> set (snd (retry_loop t e a resp))"
    and "base e k = Return r0 (Some err)"
  shows "fst (retry_loop t e a resp) = Return None (Some (Wrap ''round trip'' err)) \<and>
         last (snd (retry_loop t e a resp)) = BaseRoundTrip k \<and>
         attempts (snd (retry_loop t e a resp)) = [a..<Suc k]"
  using assms
proof (induction a resp rule: retry_loop_induct [of t _ e])
  case (finished a resp)
  then show ?case by (simp add: retry_loop_done)
next
  case (returned a resp out evs)
  then have in_evs: "BaseRoundTrip k \<in> set evs" by (simp add: retry_loop_Returned)
  from attempt_step_transport_error [OF returned(2) in_evs returned(4)]
  show ?case using returned(1,2) by (simp add: retry_loop_Returned)
next
  case (continued a resp r evs)
  let ?rest = "retry_loop t e (Suc a) (Some r)"
  note loop = retry_loop_Continue [OF continued(1,2), of resp]
  have "BaseRoundTrip k \<notin> set evs"
  proof
    assume "BaseRoundTrip k \<in> set evs"
    with continued(2) attempt_step_event_attempt [of "BaseRoundTrip k" t e a]
    have "k = a" by simp
    with attempt_step_ContinueD(1) [OF continued(2)] continued(5) show False by simp
  qed
  with continued(4) have in_rest: "BaseRoundTrip k \<in> set (snd ?rest)"
    by (simp add: loop)
  from continued(3) [OF in_rest continued(5)]
  have IH: "fst ?rest = Return None (Some (Wrap ''round trip'' err))"
    "last (snd ?rest) = BaseRoundTrip k" "attempts (snd ?rest) = [Suc a..<Suc k]"
    by simp_all
  from in_rest have ne: "snd ?rest \<noteq> []" by auto
  from retry_loop_event_attempt [OF in_rest] have "a < Suc k" by simp
  then have upt: "[a..<Suc k] = a # [Suc a..<Suc k]" by (rule upt_conv_Cons)
  have "fst (retry_loop t e a resp) = fst ?rest"
    "snd (retry_loop t e a resp) = evs @ snd ?rest"
    by (simp_all add: loop)
  with IH ne attempt_step_ContinueD(4) [OF continued(2)] upt show ?case
    by (simp only: attempts_append last_appendR) simp
qed


lemma clone_events_only_GetBody [simp]:
  "BaseRoundTrip k \<notin> set (clone_events e a)" "BodyClose k \<notin> set (clone_events e a)"
  "Backoff k d \<notin> set (clone_events e a)"
  by (simp_all add: clone_events_def split: option.splits)

lemma attempt_step_cancelled:
  assumes step: "attempt_step t e a = (Returned out, evs)"
    and ev: "Backoff k d \<in> set evs"
    and fired: "ctxDone e k = Some cerr"
  shows "k = a \<and> out = Return None (Some (Wrap ''retry wait'' cerr)) \<and>
         attempts evs = [k] \<and> int k < sint (maxRetries t) \<and>
         (\<exists>pre. evs = pre @ [BaseRoundTrip k, BodyClose k, Backoff k d])"
proof -
  from step ev attempt_step_event_attempt [of "Backoff k d" t e a] have k: "k = a" by simp
  show ?thesis
  proof (cases t e a rule: attempt_step_cases)
    case (clone_failed bodyErr)
    with step ev show ?thesis by auto
  next
    case panic
    with step ev show ?thesis by auto
  next
    case (transport_error resp err')
    with step ev show ?thesis by auto
  next
    case nil_response
    with step ev show ?thesis by auto
  next
    case (final_status r)
    with step ev show ?thesis by auto
  next
    case (cancelled r cerr')
    with step ev fired k show ?thesis
      by (auto simp add: attempts_append attempts_clone_events)
  next
    case (retry r)
    with step show ?thesis by simp
  next
    case (exhausted r)
    with step show ?thesis by simp
  qed
qed

lemma cancelled_loop:
  assumes "Backoff k d \<in> set (snd (retry_loop t e a resp))"
    and "ctxDone e k = Some cerr"
  shows "fst (retry_loop t e a resp) = Return None (Some (Wrap ''retry wait'' cerr)) \<and>
         attempts (snd (retry_loop t e a resp)) = [a..<Suc k] \<and>
         int k < sint (maxRetries t) \<and>
         (\<exists>pre. snd (retry_loop t e a resp) = pre @ [BaseRoundTrip k, BodyClose k, Backoff k d])"
  using assms
proof (induction a resp rule: retry_loop_induct [of t _ e])
  case (finished a resp)
  then show ?case by (simp add: retry_loop_done)
next
  case (returned a resp out evs)
  then have in_evs: "Backoff k d \<in> set evs" by (simp add: retry_loop_Returned)
  from attempt_step_cancelled [OF returned(2) in_evs returned(4)]
  show ?case using returned(1,2) by (auto simp add: retry_loop_Returned)
next
  case (continued a resp r evs)
  let ?rest = "retry_loop t e (Suc a) (Some r)"
  note loop = retry_loop_Continue [OF continued(1,2), of resp]
  have "Backoff k d \<notin> set evs"
  proof
    assume in_evs: "Backoff k d \<in> set evs"
    with continued(2) attempt_step_event_attempt [of "Backoff k d" t e a]
    have k: "k = a" by simp
    show False
    proof (cases "int a < sint (maxRetries t)")
      case True
      with attempt_step_ContinueD(5) [OF continued(2)] continued(5) k show False by simp
    next
      case False
      with attempt_step_ContinueD(6) [OF continued(2)] in_evs show False by simp
    qed
  qed
  with continued(4) have in_rest: "Backoff k d \<in> set (snd ?rest)"
    by (simp add: loop)
  from continued(3) [OF in_rest continued(5)]
  obtain pre where IH: "fst ?rest = Return None (Some (Wrap ''retry wait'' cerr))"
    "attempts (snd ?rest) = [Suc a..<Suc k]" "int k < sint (maxRetries t)"
    "snd ?rest = pre @ [BaseRoundTrip k, BodyClose k, Backoff k d]"
    by blast
  from retry_loop_event_attempt [OF in_rest] have "a < Suc k" by simp
  then have upt: "[a..<Suc k] = a # [Suc a..<Suc k]" by (rule upt_conv_Cons)
  have f: "fst (retry_loop t e a resp) = fst ?rest"
    and s: "snd (retry_loop t e a resp) = evs @ snd ?rest"
    by (simp_all add: loop)
  have "attempts (evs @ snd ?rest) = [a..<Suc k]"
    using IH(2) attempt_step_ContinueD(4) [OF continued(2)] upt by (simp add: attempts_append)
  moreover have "evs @ snd ?rest = (evs @ pre) @ [BaseRoundTrip k, BodyClose k, Backoff k d]"
    using IH(4) by simp
  ultimately show ?case
    unfolding f s using IH(1,3) by blast
qed


lemma retry_loop_in_range:
  assumes "snd (retry_loop t e a resp) \<noteq> []"
  shows "int a < sint (maxRetries t + 1)"
proof (rule ccontr)
  assume "\<not> int a < sint (maxRetries t + 1)"
  then have "retry_loop t e a resp = (Return resp None, [])" by (rule retry_loop_done)
  with assms show False by simp
qed

lemma retry_loop_head:
  assumes "BaseRoundTrip b \<in> set (snd (retry_loop t e b resp))"
  shows "\<exists>post. snd (retry_loop t e b resp) = clone_events e b @ BaseRoundTrip b # post"
proof (cases "int b < sint (maxRetries t + 1)")
  case False
  with assms show ?thesis by (simp add: retry_loop_done)
next
  case True
  obtain it evs where step: "attempt_step t e b = (it, evs)" by (cases "attempt_step t e b")
  have "\<exists>more. snd (retry_loop t e b resp) = evs @ more \<and>
          (\<forall>ev \<in> set more. Suc b \<le> event_attempt ev)"
  proof (cases it)
    case (Returned out)
    with True step show ?thesis by (simp add: retry_loop_Returned)
  next
    case (Continue r)
    with True step show ?thesis
      by (simp add: retry_loop_Continue retry_loop_event_attempt)
  qed
  then obtain more where tr: "snd (retry_loop t e b resp) = evs @ more"
    and more: "\<forall>ev \<in> set more. Suc b \<le> event_attempt ev" by blast
  from more have "BaseRoundTrip b \<notin> set more" by auto
  with assms tr have in_evs: "BaseRoundTrip b \<in> set evs" by simp
  have "\<exists>post. evs = clone_events e b @ BaseRoundTrip b # post"
    using step in_evs by (cases t e b rule: attempt_step_cases) auto
  with tr show ?thesis by auto
qed

lemma closed_before_next_loop:
  assumes "BaseRoundTrip (Suc k) \<in> set (snd (retry_loop t e a resp))" and "a \<le> k"
  shows "\<exists>pre post.
           snd (retry_loop t e a resp) =
             pre @ [BaseRoundTrip k, BodyClose k, Backoff k (baseDelay t * push_bit k 1)] @
             clone_events e (Suc k) @ BaseRoundTrip (Suc k) # post"
  using assms
proof (induction a resp rule: retry_loop_induct [of t _ e])
  case (finished a resp)
  then show ?case by (simp add: retry_loop_done)
next
  case (returned a resp out evs)
  then have "BaseRoundTrip (Suc k) \<in> set evs" by (simp add: retry_loop_Returned)
  with returned(2) attempt_step_event_attempt [of "BaseRoundTrip (Suc k)" t e a]
  have "Suc k = a" by simp
  with returned(4) show ?case by simp
next
  case (continued a resp r evs)
  let ?rest = "retry_loop t e (Suc a) (Some r)"
  note loop = retry_loop_Continue [OF continued(1,2), of resp]
  have s: "snd (retry_loop t e a resp) = evs @ snd ?rest" by (simp add: loop)
  have "BaseRoundTrip (Suc k) \<notin> set evs"
  proof
    assume "BaseRoundTrip (Suc k) \<in> set evs"
    with continued(2) attempt_step_event_attempt [of "BaseRoundTrip (Suc k)" t e a]
    have "Suc k = a" by simp
    with continued(5) show False by simp
  qed
  with continued(4) s have in_rest: "BaseRoundTrip (Suc k) \<in> set (snd ?rest)" by simp
  show ?case
  proof (cases "a = k")
    case True
    from in_rest have "snd ?rest \<noteq> []" by auto
    then have "int (Suc a) < sint (maxRetries t + 1)"
      by (rule retry_loop_in_range)
    with continued(1) have "int a < sint (maxRetries t)"
      using final_attempt [of a "maxRetries t"] by blast
    with attempt_step_ContinueD(5) [OF continued(2)]
    have evs: "evs = clone_events e a @
                [BaseRoundTrip a, BodyClose a, Backoff a (baseDelay t * push_bit a 1)]"
      by simp
    from retry_loop_head [of "Suc a" t e "Some r"] in_rest True
    obtain post where "snd ?rest = clone_events e (Suc a) @ BaseRoundTrip (Suc a) # post"
      by auto
    with evs True s have "snd (retry_loop t e a resp) =
        clone_events e k @ [BaseRoundTrip k, BodyClose k, Backoff k (baseDelay t * push_bit k 1)] @
        clone_events e (Suc k) @ BaseRoundTrip (Suc k) # post"
      by simp
    then show ?thesis by blast
  next
    case False
    with continued(5) have "Suc a \<le> k" by simp
    from continued(3) [OF in_rest this]
    obtain pre post where "snd ?rest =
        pre @ [BaseRoundTrip k, BodyClose k, Backoff k (baseDelay t * push_bit k 1)] @
        clone_events e (Suc k) @ BaseRoundTrip (Suc k) # post"
      by blast
    with s have "snd (retry_loop t e a resp) =
        (evs @ pre) @ [BaseRoundTrip k, BodyClose k, Backoff k (baseDelay t * push_bit k 1)] @
        clone_events e (Suc k) @ BaseRoundTrip (Suc k) # post"
      by simp
    then show ?thesis by blast
  qed
qed


lemma cancel_result_loop:
  assumes "fst (retry_loop t e a resp) = Return None (Some (Wrap ''retry wait'' cerr))"
  shows "\<exists>pre k. snd (retry_loop t e a resp) =
                   pre @ [BaseRoundTrip k, BodyClose k, Backoff k (baseDelay t * push_bit k 1)] \<and>
                 ctxDone e k = Some cerr"
  using assms
proof (induction a resp rule: retry_loop_induct [of t _ e])
  case (finished a resp)
  then show ?case by (simp add: retry_loop_done)
next
  case (returned a resp out evs)
  then have out: "out = Return None (Some (Wrap ''retry wait'' cerr))"
    and s: "snd (retry_loop t e a resp) = evs"
    by (simp_all add: retry_loop_Returned)
  have "\<exists>pre. evs = pre @ [BaseRoundTrip a, BodyClose a, Backoff a (baseDelay t * push_bit a 1)] \<and>
          ctxDone e a = Some cerr"
    using returned(2) out by (cases t e a rule: attempt_step_cases) auto
  with s show ?case by auto
next
  case (continued a resp r evs)
  let ?rest = "retry_loop t e (Suc a) (Some r)"
  note loop = retry_loop_Continue [OF continued(1,2), of resp]
  have f: "fst (retry_loop t e a resp) = fst ?rest"
    and s: "snd (retry_loop t e a resp) = evs @ snd ?rest"
    by (simp_all add: loop)
  from continued(4) f have "fst ?rest = Return None (Some (Wrap ''retry wait'' cerr))" by simp
  from continued(3) [OF this]
  obtain pre k where "snd ?rest =
      pre @ [BaseRoundTrip k, BodyClose k, Backoff k (baseDelay t * push_bit k 1)]"
    and "ctxDone e k = Some cerr" by blast
  with s have "snd (retry_loop t e a resp) =
      (evs @ pre) @ [BaseRoundTrip k, BodyClose k, Backoff k (baseDelay t * push_bit k 1)] \<and>
      ctxDone e k = Some cerr"
    by simp
  then show ?case by blast
qed

lemma returned_response_loop:
  assumes "fst (retry_loop t e a resp) = Return (Some r) None"
    and "snd (retry_loop t e a resp) \<noteq> []"
  shows "\<exists>k. base e k = Return (Some r) None \<and>
             last (snd (retry_loop t e a resp)) = BaseRoundTrip k \<and>
             BodyClose k \<notin> set (snd (retry_loop t e a resp))"
  using assms
proof (induction a resp rule: retry_loop_induct [of t _ e])
  case (finished a resp)
  then show ?case by (simp add: retry_loop_done)
next
  case (returned a resp out evs)
  then have out: "out = Return (Some r) None"
    and s: "snd (retry_loop t e a resp) = evs"
    by (simp_all add: retry_loop_Returned)
  have "base e a = Return (Some r) None \<and> last evs = BaseRoundTrip a \<and> BodyClose a \<notin> set evs"
    using returned(2) out by (cases t e a rule: attempt_step_cases) auto
  with s show ?case by auto
next
  case (continued a resp r' evs)
  let ?rest = "retry_loop t e (Suc a) (Some r')"
  note loop = retry_loop_Continue [OF continued(1,2), of resp]
  have f: "fst (retry_loop t e a resp) = fst ?rest"
    and s: "snd (retry_loop t e a resp) = evs @ snd ?rest"
    by (simp_all add: loop)
  from continued(4) f have fr: "fst ?rest = Return (Some r) None" by simp
  show ?case
  proof (cases "snd ?rest = []")
    case True
    then have stop: "\<not> int (Suc a) < sint (maxRetries t + 1)"
      using retry_loop_nonempty [of "Suc a" t e "Some r'"] by blast
    then have "?rest = (Return (Some r') None, [])" by (rule retry_loop_done)
    with fr have r: "r' = r" by simp
    from stop continued(1) have "\<not> int a < sint (maxRetries t)"
      using more_attempts [of a "maxRetries t"] by blast
    with attempt_step_ContinueD(6) [OF continued(2)]
    have evs: "evs = clone_events e a @ [BaseRoundTrip a]" by simp
    from attempt_step_ContinueD(1) [OF continued(2)] r evs True s
    have "base e a = Return (Some r) None \<and>
          last (snd (retry_loop t e a resp)) = BaseRoundTrip a \<and>
          BodyClose a \<notin> set (snd (retry_loop t e a resp))"
      by simp
    then show ?thesis by blast
  next
    case False
    from continued(3) [OF fr False]
    obtain k where k: "base e k = Return (Some r) None" "last (snd ?rest) = BaseRoundTrip k"
      "BodyClose k \<notin> set (snd ?rest)" by blast
    from False k(2) have "BaseRoundTrip k \<in> set (snd ?rest)"
      using last_in_set [of "snd ?rest"] by simp
    from retry_loop_event_attempt [OF this] have "Suc a \<le> k" by simp
    have "BodyClose k \<notin> set evs"
    proof
      assume "BodyClose k \<in> set evs"
      with continued(2) attempt_step_event_attempt [of "BodyClose k" t e a]
      have "k = a" by simp
      with \<open>Suc a \<le> k\<close> show False by simp
    qed
    with k False s have "base e k = Return (Some r) None \<and>
          last (snd (retry_loop t e a resp)) = BaseRoundTrip k \<and>
          BodyClose k \<notin> set (snd (retry_loop t e a resp))"
      by simp
    then show ?thesis by blast
  qed
qed

lemma always_retryable_loop:
  assumes retryable: "\<And>k. int k \<le> sint (maxRetries t) \<Longrightarrow>
                        \<exists>r. base e k = Return (Some r) None \<and> shouldRetry (StatusCode r)"
    and waits: "\<And>k. int k < sint (maxRetries t) \<Longrightarrow> ctxDone e k = None"
    and clones: "\<And>k. int k \<le> sint (maxRetries t) \<Longrightarrow> clone_error e k = None"
    and nonneg: "0 \<le> sint (maxRetries t + 1)"
    and le: "int a \<le> sint (maxRetries t)"
  shows "fst (retry_loop t e a resp) = base e (nat (sint (maxRetries t))) \<and>
         attempts (snd (retry_loop t e a resp)) = [a..<Suc (nat (sint (maxRetries t)))]"
  using le
proof (induction a resp rule: retry_loop_induct [of t _ e])
  case (finished a resp)
  with sint_succ_eq [OF nonneg] show ?case by simp
next
  case (returned a resp out evs)
  from retryable [OF returned(3)]
  obtain r where "base e a = Return (Some r) None" "shouldRetry (StatusCode r)"
    by blast
  with returned(2) waits [of a] clones [OF returned(3)] have False
    by (cases t e a rule: attempt_step_cases) auto
  then show ?case ..
next
  case (continued a resp r evs)
  let ?rest = "retry_loop t e (Suc a) (Some r)"
  let ?n = "nat (sint (maxRetries t))"
  note loop = retry_loop_Continue [OF continued(1,2), of resp]
  have f: "fst (retry_loop t e a resp) = fst ?rest"
    and s: "snd (retry_loop t e a resp) = evs @ snd ?rest"
    by (simp_all add: loop)
  note at = attempt_step_ContinueD(4) [OF continued(2)]
  show ?case
  proof (cases "int a < sint (maxRetries t)")
    case True
    then have "int (Suc a) \<le> sint (maxRetries t)" by simp
    from continued(3) [OF this]
    have IH: "fst ?rest = base e ?n" "attempts (snd ?rest) = [Suc a..<Suc ?n]" by simp_all
    from True have "a < Suc ?n" by linarith
    then have "[a..<Suc ?n] = a # [Suc a..<Suc ?n]" by (rule upt_conv_Cons)
    with IH at show ?thesis unfolding f s by (simp add: attempts_append)
  next
    case False
    with continued(4) have a: "int a = sint (maxRetries t)" by simp
    then have n: "?n = a" by simp
    from False continued(1) have "\<not> int (Suc a) < sint (maxRetries t + 1)"
      by (rule final_attempt [rotated])
    then have "?rest = (Return (Some r) None, [])" by (rule retry_loop_done)
    with attempt_step_ContinueD(1) [OF continued(2)] at n show ?thesis
      unfolding f s by simp
  qed
qed

lemmas run_defs = RoundTrip_def retry_loop.simps attempt_step_def clone_events_def
  clone_error_def every_attempt_def status_defs

subsection \<open>The claims about the retrying transport\<close>

text \<open>
  C3, as stated, fails. With \<open>maxRetries = 3\<close> and a base transport that returns status 500
  on every attempt, a context that is cancelled during the first wait makes \<open>RoundTrip\<close>
  return the error \<open>retry wait: context canceled\<close> after one attempt; and a request body
  whose second re-materialisation fails makes it return the error
  \<open>cloning request body: body gone\<close>, also after one attempt.
\<close>

theorem always_500_counterexample:
  "RoundTrip \<lparr>maxRetries = 3, baseDelay = 1000000\<rparr>
     \<lparr>getBody = None,
      base = every_attempt (Return (Some \<lparr>StatusCode = 500, Body = 0\<rparr>) None),
      ctxDone = every_attempt (Some (Err ''context canceled''))\<rparr>
   = (Return None (Some (Wrap ''retry wait'' (Err ''context canceled''))),
      [BaseRoundTrip 0, BodyClose 0, Backoff 0 1000000]) \<and>
   attempts [BaseRoundTrip 0, BodyClose 0, Backoff 0 1000000] = [0] \<and>
   RoundTrip \<lparr>maxRetries = 3, baseDelay = 1000000\<rparr>
     \<lparr>getBody = Some ((every_attempt None)(1 := Some (Err ''body gone''))),
      base = every_attempt (Return (Some \<lparr>StatusCode = 500, Body = 0\<rparr>) None),
      ctxDone = every_attempt None\<rparr>
   = (Return None (Some (Wrap ''cloning request body'' (Err ''body gone''))),
      [GetBody 0, BaseRoundTrip 0, BodyClose 0, Backoff 0 1000000, GetBody 1]) \<and>
   attempts [GetBody 0, BaseRoundTrip 0, BodyClose 0, Backoff 0 1000000, GetBody 1] = [0]"
  by (simp add: run_defs)

text \<open>
  C3, amended. If the base transport returns status 500 on every attempt,
  \<open>maxRetries = 3\<close>, the context is not cancelled during the three backoff waits and the
  request body (if any) is re-materialised without error before each attempt, then
  \<open>RoundTrip\<close> makes exactly the four attempts 0, 1, 2, 3 and returns what the last attempt
  returned: a response of status 500, with a nil error.
\<close>

theorem always_500_four_attempts:
  assumes "maxRetries t = 3"
    and "\<forall>k\<le>3. \<exists>r. base e k = Return (Some r) None \<and> StatusCode r = 500"
    and "\<forall>k<3. ctxDone e k = None"
    and "\<forall>k\<le>3. clone_error e k = None"
  shows "fst (RoundTrip t e) = base e 3 \<and>
         (\<exists>r. fst (RoundTrip t e) = Return (Some r) None \<and> StatusCode r = 500) \<and>
         attempts (snd (RoundTrip t e)) = [0, 1, 2, 3] \<and>
         length (attempts (snd (RoundTrip t e))) = 4"
proof -
  have m: "sint (maxRetries t) = 3" "0 \<le> sint (maxRetries t + 1)"
    by (simp_all add: assms(1))
  have "shouldRetry 500" by (simp add: status_defs)
  have retryable: "\<exists>r. base e k = Return (Some r) None \<and> shouldRetry (StatusCode r)"
    if "int k \<le> sint (maxRetries t)" for k
  proof -
    from that have "k \<le> 3" unfolding m by simp
    with assms(2) obtain r where "base e k = Return (Some r) None" "StatusCode r = 500" by blast
    with \<open>shouldRetry 500\<close> show ?thesis by simp
  qed
  have waits: "ctxDone e k = None" if "int k < sint (maxRetries t)" for k
    using that assms(3) unfolding m by simp
  have clones: "clone_error e k = None" if "int k \<le> sint (maxRetries t)" for k
    using that assms(4) unfolding m by simp
  from always_retryable_loop [of t e 0 None, OF retryable waits clones m(2)] m(1)
  have "fst (RoundTrip t e) = base e 3" "attempts (snd (RoundTrip t e)) = [0..<Suc 3]"
    by (simp_all add: RoundTrip_def)
  moreover have "[0..<Suc 3] = [0, 1, 2, 3]" by (simp add: upt_rec)
  moreover from assms(2) obtain r where "base e 3 = Return (Some r) None" "StatusCode r = 500"
    by blast
  ultimately show ?thesis by simp
qed

theorem always_500_four_attempts_witness:
  "maxRetries \<lparr>maxRetries = 3, baseDelay = 1000000\<rparr> = 3 \<and>
   fst (RoundTrip \<lparr>maxRetries = 3, baseDelay = 1000000\<rparr>
     \<lparr>getBody = None,
      base = every_attempt (Return (Some \<lparr>StatusCode = 500, Body = 0\<rparr>) None),
      ctxDone = every_attempt None\<rparr>)
   = Return (Some \<lparr>StatusCode = 500, Body = 0\<rparr>) None \<and>
   attempts (snd (RoundTrip \<lparr>maxRetries = 3, baseDelay = 1000000\<rparr>
     \<lparr>getBody = None,
      base = every_attempt (Return (Some \<lparr>StatusCode = 500, Body = 0\<rparr>) None),
      ctxDone = every_attempt None\<rparr>)) = [0, 1, 2, 3]"
  using always_500_four_attempts [of "\<lparr>maxRetries = 3, baseDelay = 1000000\<rparr>"
     "\<lparr>getBody = None,
      base = every_attempt (Return (Some \<lparr>StatusCode = 500, Body = 0\<rparr>) None),
      ctxDone = every_attempt None\<rparr>"]
  by (simp add: every_attempt_def clone_error_def)


text \<open>
  C4. If attempt \<open>k\<close> is made and the base transport returns an error in it, then
  \<open>RoundTrip\<close> returns a nil response and that error wrapped under the prefix
  \<open>round trip\<close>; the call of the base transport in attempt \<open>k\<close> is the last thing it does,
  and the attempts made are 0 to \<open>k\<close>, whatever \<open>maxRetries\<close> is.
\<close>

theorem transport_error_terminal:
  assumes "BaseRoundTrip k \<in> set (snd (RoundTrip t e))"
    and "base e k = Return resp (Some err)"
  shows "fst (RoundTrip t e) = Return None (Some (Wrap ''round trip'' err)) \<and>
         Unwrap (Wrap ''round trip'' err) = Some err \<and>
         last (snd (RoundTrip t e)) = BaseRoundTrip k \<and>
         attempts (snd (RoundTrip t e)) = [0..<Suc k]"
  using transport_error_loop [of k t e 0 None resp err] assms
  by (simp add: RoundTrip_def)

theorem transport_error_terminal_witness:
  "BaseRoundTrip 1 \<in> set (snd (RoundTrip \<lparr>maxRetries = 3, baseDelay = 1000000\<rparr>
      \<lparr>getBody = None,
       base = (every_attempt (Return (Some \<lparr>StatusCode = 503, Body = 0\<rparr>) None))
                (1 := Return None (Some (Err ''connection refused''))),
       ctxDone = every_attempt None\<rparr>)) \<and>
   fst (RoundTrip \<lparr>maxRetries = 3, baseDelay = 1000000\<rparr>
      \<lparr>getBody = None,
       base = (every_attempt (Return (Some \<lparr>StatusCode = 503, Body = 0\<rparr>) None))
                (1 := Return None (Some (Err ''connection refused''))),
       ctxDone = every_attempt None\<rparr>)
     = Return None (Some (Wrap ''round trip'' (Err ''connection refused''))) \<and>
   attempts (snd (RoundTrip \<lparr>maxRetries = 3, baseDelay = 1000000\<rparr>
      \<lparr>getBody = None,
       base = (every_attempt (Return (Some \<lparr>StatusCode = 503, Body = 0\<rparr>) None))
                (1 := Return None (Some (Err ''connection refused''))),
       ctxDone = every_attempt None\<rparr>)) = [0..<Suc 1]"
proof -
  let ?t = "\<lparr>maxRetries = 3, baseDelay = 1000000\<rparr>"
  let ?e = "\<lparr>getBody = None,
       base = (every_attempt (Return (Some \<lparr>StatusCode = 503, Body = 0\<rparr>) None))
                (1 := Return None (Some (Err ''connection refused''))),
       ctxDone = every_attempt None\<rparr>"
  have made: "BaseRoundTrip 1 \<in> set (snd (RoundTrip ?t ?e))"
    by (simp add: run_defs)
  have failed: "base ?e 1 = Return None (Some (Err ''connection refused''))"
    by simp
  from transport_error_terminal [OF made failed] made show ?thesis by blast
qed

text \<open>
  C5. If the wait after attempt \<open>k\<close> is reached and the context is cancelled during it,
  then \<open>RoundTrip\<close> returns a nil response and the context's error wrapped under the
  prefix \<open>retry wait\<close>, which differs from the wrapped errors of the other failures; the
  wait is the last thing it does, the attempts made are 0 to \<open>k\<close>, and they are fewer than
  the \<open>maxRetries + 1\<close> attempts of the full budget.
\<close>

theorem cancellation_interrupts_backoff:
  assumes "Backoff k d \<in> set (snd (RoundTrip t e))"
    and "ctxDone e k = Some cerr"
  shows "fst (RoundTrip t e) = Return None (Some (Wrap ''retry wait'' cerr)) \<and>
         Unwrap (Wrap ''retry wait'' cerr) = Some cerr \<and>
         Wrap ''retry wait'' cerr \<noteq> Wrap ''round trip'' err1 \<and>
         Wrap ''retry wait'' cerr \<noteq> Wrap ''cloning request body'' err2 \<and>
         (\<exists>pre. snd (RoundTrip t e) = pre @ [BaseRoundTrip k, BodyClose k, Backoff k d]) \<and>
         attempts (snd (RoundTrip t e)) = [0..<Suc k] \<and>
         int (length (attempts (snd (RoundTrip t e)))) < sint (maxRetries t) + 1"
proof -
  from cancelled_loop [of k d t e 0 None cerr] assms
  have 1: "fst (RoundTrip t e) = Return None (Some (Wrap ''retry wait'' cerr))"
    and 2: "attempts (snd (RoundTrip t e)) = [0..<Suc k]"
    and 3: "int k < sint (maxRetries t)"
    and 4: "\<exists>pre. snd (RoundTrip t e) = pre @ [BaseRoundTrip k, BodyClose k, Backoff k d]"
    by (simp_all add: RoundTrip_def)
  from 2 3 have "int (length (attempts (snd (RoundTrip t e)))) < sint (maxRetries t) + 1"
    by simp
  with 1 2 4 show ?thesis by simp
qed

theorem cancellation_interrupts_backoff_witness:
  "Backoff 1 2000000 \<in> set (snd (RoundTrip \<lparr>maxRetries = 3, baseDelay = 1000000\<rparr>
      \<lparr>getBody = None,
       base = every_attempt (Return (Some \<lparr>StatusCode = 500, Body = 0\<rparr>) None),
       ctxDone = (every_attempt None)(1 := Some (Err ''context canceled''))\<rparr>)) \<and>
   fst (RoundTrip \<lparr>maxRetries = 3, baseDelay = 1000000\<rparr>
      \<lparr>getBody = None,
       base = every_attempt (Return (Some \<lparr>StatusCode = 500, Body = 0\<rparr>) None),
       ctxDone = (every_attempt None)(1 := Some (Err ''context canceled''))\<rparr>)
     = Return None (Some (Wrap ''retry wait'' (Err ''context canceled''))) \<and>
   attempts (snd (RoundTrip \<lparr>maxRetries = 3, baseDelay = 1000000\<rparr>
      \<lparr>getBody = None,
       base = every_attempt (Return (Some \<lparr>StatusCode = 500, Body = 0\<rparr>) None),
       ctxDone = (every_attempt None)(1 := Some (Err ''context canceled''))\<rparr>)) = [0..<Suc 1]"
proof -
  let ?t = "\<lparr>maxRetries = 3, baseDelay = 1000000\<rparr>"
  let ?e = "\<lparr>getBody = None,
       base = every_attempt (Return (Some \<lparr>StatusCode = 500, Body = 0\<rparr>) None),
       ctxDone = (every_attempt None)(1 := Some (Err ''context canceled''))\<rparr>"
  have waited: "Backoff 1 2000000 \<in> set (snd (RoundTrip ?t ?e))"
    by (simp add: run_defs)
  have fired: "ctxDone ?e 1 = Some (Err ''context canceled'')"
    by simp
  from cancellation_interrupts_backoff [OF waited fired] waited show ?thesis by blast
qed


text \<open>
  C7, as stated, fails on the paths that return a response. A response of status 200
  (success) and one of status 404 (terminal failure) are returned after one attempt
  without any call of \<open>Close\<close>; and when the retries are used up (\<open>maxRetries = 1\<close>, status
  500 twice) the body of the first response is closed but the body of the returned one is
  not.
\<close>

theorem returned_body_open_counterexample:
  "RoundTrip \<lparr>maxRetries = 3, baseDelay = 1000000\<rparr>
     \<lparr>getBody = None,
      base = every_attempt (Return (Some \<lparr>StatusCode = 200, Body = 7\<rparr>) None),
      ctxDone = every_attempt None\<rparr>
   = (Return (Some \<lparr>StatusCode = 200, Body = 7\<rparr>) None, [BaseRoundTrip 0]) \<and>
   BodyClose 0 \<notin> set [BaseRoundTrip 0] \<and>
   RoundTrip \<lparr>maxRetries = 3, baseDelay = 1000000\<rparr>
     \<lparr>getBody = None,
      base = every_attempt (Return (Some \<lparr>StatusCode = 404, Body = 8\<rparr>) None),
      ctxDone = every_attempt None\<rparr>
   = (Return (Some \<lparr>StatusCode = 404, Body = 8\<rparr>) None, [BaseRoundTrip 0]) \<and>
   RoundTrip \<lparr>maxRetries = 1, baseDelay = 1000000\<rparr>
     \<lparr>getBody = None,
      base = every_attempt (Return (Some \<lparr>StatusCode = 500, Body = 9\<rparr>) None),
      ctxDone = every_attempt None\<rparr>
   = (Return (Some \<lparr>StatusCode = 500, Body = 9\<rparr>) None,
      [BaseRoundTrip 0, BodyClose 0, Backoff 0 1000000, BaseRoundTrip 1]) \<and>
   BodyClose 1 \<notin> set [BaseRoundTrip 0, BodyClose 0, Backoff 0 1000000, BaseRoundTrip 1]"
  by (simp add: run_defs)

text \<open>
  C7, amended. On the retry path the body of the current attempt's response is closed
  right after the attempt, before the wait and so before the next attempt begins: whenever
  attempt \<open>k + 1\<close> is made, the run holds the call of the base transport of attempt \<open>k\<close>,
  then the closing of its body, then the wait, then attempt \<open>k + 1\<close>. On the cancellation
  path the body is closed before \<open>RoundTrip\<close> returns: the run ends with an attempt, the
  closing of its body and the interrupted wait. On the paths that return a response
  (success, terminal failure, retries used up) the returned response is the one of the
  last attempt and \<open>RoundTrip\<close> has not closed its body.
\<close>

theorem body_closed_on_retry_and_cancellation:
  "(BaseRoundTrip (Suc k) \<in> set (snd (RoundTrip t e)) \<longrightarrow>
      (\<exists>pre post. snd (RoundTrip t e) =
         pre @ [BaseRoundTrip k, BodyClose k, Backoff k (baseDelay t * push_bit k 1)] @
         clone_events e (Suc k) @ BaseRoundTrip (Suc k) # post)) \<and>
   (fst (RoundTrip t e) = Return None (Some (Wrap ''retry wait'' cerr)) \<longrightarrow>
      (\<exists>pre j. snd (RoundTrip t e) =
         pre @ [BaseRoundTrip j, BodyClose j, Backoff j (baseDelay t * push_bit j 1)])) \<and>
   (fst (RoundTrip t e) = Return (Some r) None \<longrightarrow>
      (\<exists>j. base e j = Return (Some r) None \<and> last (snd (RoundTrip t e)) = BaseRoundTrip j \<and>
           BodyClose j \<notin> set (snd (RoundTrip t e))))"
proof (intro conjI impI)
  assume "BaseRoundTrip (Suc k) \<in> set (snd (RoundTrip t e))"
  then show "\<exists>pre post. snd (RoundTrip t e) =
         pre @ [BaseRoundTrip k, BodyClose k, Backoff k (baseDelay t * push_bit k 1)] @
         clone_events e (Suc k) @ BaseRoundTrip (Suc k) # post"
    unfolding RoundTrip_def by (rule closed_before_next_loop) simp
next
  assume "fst (RoundTrip t e) = Return None (Some (Wrap ''retry wait'' cerr))"
  then show "\<exists>pre j. snd (RoundTrip t e) =
         pre @ [BaseRoundTrip j, BodyClose j, Backoff j (baseDelay t * push_bit j 1)]"
    unfolding RoundTrip_def using cancel_result_loop [of t e 0 None cerr] by blast
next
  assume ret: "fst (RoundTrip t e) = Return (Some r) None"
  have "snd (RoundTrip t e) \<noteq> []"
  proof
    assume "snd (RoundTrip t e) = []"
    then have "\<not> int 0 < sint (maxRetries t + 1)"
      unfolding RoundTrip_def using retry_loop_nonempty [of 0 t e None] by blast
    then have "RoundTrip t e = (Return None None, [])"
      unfolding RoundTrip_def by (rule retry_loop_done)
    with ret show False by simp
  qed
  with ret show "\<exists>j. base e j = Return (Some r) None \<and>
      last (snd (RoundTrip t e)) = BaseRoundTrip j \<and> BodyClose j \<notin> set (snd (RoundTrip t e))"
    unfolding RoundTrip_def by (rule returned_response_loop)
qed

theorem body_closed_on_retry_and_cancellation_witness:
  "BaseRoundTrip (Suc 0) \<in> set (snd (RoundTrip \<lparr>maxRetries = 3, baseDelay = 1000000\<rparr>
      \<lparr>getBody = None,
       base = (every_attempt (Return (Some \<lparr>StatusCode = 200, Body = 2\<rparr>) None))
                (0 := Return (Some \<lparr>StatusCode = 500, Body = 1\<rparr>) None),
       ctxDone = every_attempt None\<rparr>)) \<and>
   (\<exists>pre post. snd (RoundTrip \<lparr>maxRetries = 3, baseDelay = 1000000\<rparr>
      \<lparr>getBody = None,
       base = (every_attempt (Return (Some \<lparr>StatusCode = 200, Body = 2\<rparr>) None))
                (0 := Return (Some \<lparr>StatusCode = 500, Body = 1\<rparr>) None),
       ctxDone = every_attempt None\<rparr>) =
      pre @ [BaseRoundTrip 0, BodyClose 0, Backoff 0 1000000] @ BaseRoundTrip (Suc 0) # post) \<and>
   fst (RoundTrip \<lparr>maxRetries = 3, baseDelay = 1000000\<rparr>
      \<lparr>getBody = None,
       base = (every_attempt (Return (Some \<lparr>StatusCode = 200, Body = 2\<rparr>) None))
                (0 := Return (Some \<lparr>StatusCode = 500, Body = 1\<rparr>) None),
       ctxDone = every_attempt None\<rparr>) = Return (Some \<lparr>StatusCode = 200, Body = 2\<rparr>) None \<and>
   (\<exists>j. last (snd (RoundTrip \<lparr>maxRetries = 3, baseDelay = 1000000\<rparr>
      \<lparr>getBody = None,
       base = (every_attempt (Return (Some \<lparr>StatusCode = 200, Body = 2\<rparr>) None))
                (0 := Return (Some \<lparr>StatusCode = 500, Body = 1\<rparr>) None),
       ctxDone = every_attempt None\<rparr>)) = BaseRoundTrip j \<and>
       BodyClose j \<notin> set (snd (RoundTrip \<lparr>maxRetries = 3, baseDelay = 1000000\<rparr>
      \<lparr>getBody = None,
       base = (every_attempt (Return (Some \<lparr>StatusCode = 200, Body = 2\<rparr>) None))
                (0 := Return (Some \<lparr>StatusCode = 500, Body = 1\<rparr>) None),
       ctxDone = every_attempt None\<rparr>))) \<and>
   fst (RoundTrip \<lparr>maxRetries = 3, baseDelay = 1000000\<rparr>
      \<lparr>getBody = None,
       base = every_attempt (Return (Some \<lparr>StatusCode = 500, Body = 1\<rparr>) None),
       ctxDone = every_attempt (Some (Err ''context canceled''))\<rparr>)
     = Return None (Some (Wrap ''retry wait'' (Err ''context canceled''))) \<and>
   (\<exists>pre j. snd (RoundTrip \<lparr>maxRetries = 3, baseDelay = 1000000\<rparr>
      \<lparr>getBody = None,
       base = every_attempt (Return (Some \<lparr>StatusCode = 500, Body = 1\<rparr>) None),
       ctxDone = every_attempt (Some (Err ''context canceled''))\<rparr>) =
      pre @ [BaseRoundTrip j, BodyClose j, Backoff j (1000000 * push_bit j 1)])"
proof -
  let ?t = "\<lparr>maxRetries = 3, baseDelay = 1000000\<rparr>"
  let ?a = "\<lparr>getBody = None,
       base = (every_attempt (Return (Some \<lparr>StatusCode = 200, Body = 2\<rparr>) None))
                (0 := Return (Some \<lparr>StatusCode = 500, Body = 1\<rparr>) None),
       ctxDone = every_attempt None\<rparr>"
  let ?b = "\<lparr>getBody = None,
       base = every_attempt (Return (Some \<lparr>StatusCode = 500, Body = 1\<rparr>) None),
       ctxDone = every_attempt (Some (Err ''context canceled''))\<rparr>"
  have retried: "BaseRoundTrip (Suc 0) \<in> set (snd (RoundTrip ?t ?a))"
    by (simp add: run_defs)
  have returned: "fst (RoundTrip ?t ?a) = Return (Some \<lparr>StatusCode = 200, Body = 2\<rparr>) None"
    by (simp add: run_defs)
  have cancelled:
    "fst (RoundTrip ?t ?b) = Return None (Some (Wrap ''retry wait'' (Err ''context canceled'')))"
    by (simp add: run_defs)
  note a = body_closed_on_retry_and_cancellation
    [of 0 ?t ?a "Err ''context canceled''" "\<lparr>StatusCode = 200, Body = 2\<rparr>"]
  note b = body_closed_on_retry_and_cancellation
    [of 0 ?t ?b "Err ''context canceled''" "\<lparr>StatusCode = 200, Body = 2\<rparr>"]
  from a retried have 1: "\<exists>pre post. snd (RoundTrip ?t ?a) =
      pre @ [BaseRoundTrip 0, BodyClose 0, Backoff 0 1000000] @ BaseRoundTrip (Suc 0) # post"
    by (simp add: clone_events_def)
  from a returned have 2: "\<exists>j. last (snd (RoundTrip ?t ?a)) = BaseRoundTrip j \<and>
      BodyClose j \<notin> set (snd (RoundTrip ?t ?a))"
    by blast
  from b cancelled have 3: "\<exists>pre j. snd (RoundTrip ?t ?b) =
      pre @ [BaseRoundTrip j, BodyClose j, Backoff j (1000000 * push_bit j 1)]"
    by simp
  from retried 1 returned 2 cancelled 3 show ?thesis by (intro conjI)
qed

end
